theory Spec2Isabelle
  imports Complex_Main "HOL-Library.Multiset"
begin

section \<open>Values of the simulation\<close>

text \<open>
  The development follows \<^verbatim>\<open>server/async.py\<close>. Python floats (times, delays, tensor
  entries, mixing rates) are read as real numbers, Python integers as \<open>int\<close>. A tensor is
  an element of a real vector space \<open>'a\<close>: subtraction, addition and scaling by a float
  are the vector-space operations, \<^verbatim>\<open>torch.zeros(x.size())\<close> is the zero vector, and every
  tensor of one model has the shape fixed by the type (shape broadcasting and shape
  errors of the tensor library are outside the embedding).
  Every exception the code can raise is a value of \<open>error\<close>; a function that may raise
  returns \<open>error + 'r\<close>, with \<open>Inl\<close> for the exception.
\<close>

datatype error =
    IndexError
  | AssertionError
  | ZeroDivisionError
  | TypeError
  | ValueError
  | NotImplementedError
  | ComplexCoefficient

text \<open>
  \<open>ComplexCoefficient\<close> is not a Python exception: it marks the one place where the code
  leaves real arithmetic (a negative base under a fractional exponent gives a complex
  mixing coefficient). The embedding stops there.
\<close>

type_synonym 'a weights = "(string \<times> 'a) list"

record 'a report =
  client_id :: nat
  weights :: "(string \<times> 'a) list"
  num_samples :: int
  accuracy :: real

text \<open>What \<^verbatim>\<open>AsyncServer.staleness\<close> can hand back: a float, a complex number, or \<^verbatim>\<open>None\<close>.\<close>

datatype pyval = PyNone | PyFloat real | PyComplex complex

section \<open>The staleness function\<close>

text \<open>
  \<^verbatim>\<open>pow(x, -a)\<close> with \<^verbatim>\<open>a = 0.5\<close> on a float \<open>x\<close>: a zero base raises
  \<^verbatim>\<open>ZeroDivisionError\<close>, a negative base yields the principal complex root.
\<close>

definition pow_neg_half :: "real \<Rightarrow> error + pyval" where
  "pow_neg_half x =
     (if x = 0 then Inl ZeroDivisionError
      else if x < 0 then Inr (PyComplex (Complex 0 (- ((- x) powr (- (1 / 2))))))
      else Inr (PyFloat (x powr (- (1 / 2)))))"

definition truediv :: "real \<Rightarrow> real \<Rightarrow> error + pyval" where
  "truediv x y = (if y = 0 then Inl ZeroDivisionError else Inr (PyFloat (x / y)))"

text \<open>
  \<^verbatim>\<open>AsyncServer.staleness\<close>, with the configured name as first argument. A name that is
  none of the three falls off the end of the \<^verbatim>\<open>if\<close> chain and returns \<^verbatim>\<open>None\<close>.
  The staleness itself is \<^verbatim>\<open>None\<close> when \<^verbatim>\<open>aggregation\<close> is called without it (its default);
  \<^verbatim>\<open>None + 1\<close> and \<^verbatim>\<open>None <= 4\<close> raise \<^verbatim>\<open>TypeError\<close>.
\<close>

definition staleness :: "string \<Rightarrow> real option \<Rightarrow> error + pyval" where
  "staleness staleness_func so =
     (if staleness_func = ''constant'' then Inr (PyFloat 1)
      else if staleness_func = ''polynomial'' then
        (case so of None \<Rightarrow> Inl TypeError | Some s \<Rightarrow> pow_neg_half (s + 1))
      else if staleness_func = ''hinge'' then
        (case so of
           None \<Rightarrow> Inl TypeError
         | Some s \<Rightarrow> if s \<le> 4 then Inr (PyFloat 1) else truediv 1 (10 * (s - 4) + 1))
      else Inr PyNone)"

section \<open>Aggregation\<close>

text \<open>
  The inner loop of \<^verbatim>\<open>extract_client_updates\<close>: position \<open>i\<close> of one report's weight list
  against position \<open>i\<close> of the baseline, with the name assertion.
\<close>

fun client_update ::
  "('a::real_vector) weights \<Rightarrow> nat \<Rightarrow> 'a weights \<Rightarrow> error + 'a weights" where
  "client_update baseline_weights i [] = Inr []"
| "client_update baseline_weights i ((name, weight) # rest) =
     (if length baseline_weights \<le> i then Inl IndexError
      else (case baseline_weights ! i of (bl_name, baseline) \<Rightarrow>
        if name \<noteq> bl_name then Inl AssertionError
        else (case client_update baseline_weights (Suc i) rest of
                Inl e \<Rightarrow> Inl e
              | Inr update \<Rightarrow> Inr ((name, weight - baseline) # update))))"

fun extract_client_updates ::
  "('a::real_vector) weights \<Rightarrow> 'a report list \<Rightarrow> error + 'a weights list" where
  "extract_client_updates baseline_weights [] = Inr []"
| "extract_client_updates baseline_weights (r # rs) =
     (case client_update baseline_weights 0 (weights r) of
        Inl e \<Rightarrow> Inl e
      | Inr update \<Rightarrow>
          (case extract_client_updates baseline_weights rs of
             Inl e \<Rightarrow> Inl e
           | Inr updates \<Rightarrow> Inr (update # updates)))"

definition extract_client_weights :: "'a report list \<Rightarrow> 'a weights list" where
  "extract_client_weights reports = map weights reports"

text \<open>
  The loop \<^verbatim>\<open>for j, (_, delta) in enumerate(update): avg[j] += delta * (n / total)\<close>.
  The subscript is loaded first, then the quotient of the two integers is taken.
\<close>

fun add_weighted ::
  "('a::real_vector) list \<Rightarrow> int \<Rightarrow> int \<Rightarrow> nat \<Rightarrow> 'a weights \<Rightarrow> error + 'a list" where
  "add_weighted avg n total_samples j [] = Inr avg"
| "add_weighted avg n total_samples j ((name, delta) # rest) =
     (if length avg \<le> j then Inl IndexError
      else if total_samples = 0 then Inl ZeroDivisionError
      else add_weighted
             (avg[j := avg ! j + (real_of_int n / real_of_int total_samples) *\<^sub>R delta])
             n total_samples (Suc j) rest)"

text \<open>The loop \<^verbatim>\<open>for i, update in enumerate(updates)\<close>, reading \<^verbatim>\<open>reports[i].num_samples\<close>.\<close>

fun weighted_sum ::
  "('a::real_vector) list \<Rightarrow> 'a report list \<Rightarrow> int \<Rightarrow> nat \<Rightarrow> 'a weights list
     \<Rightarrow> error + 'a list" where
  "weighted_sum avg reports total_samples i [] = Inr avg"
| "weighted_sum avg reports total_samples i (update # rest) =
     (if length reports \<le> i then Inl IndexError
      else (case add_weighted avg (num_samples (reports ! i)) total_samples 0 update of
              Inl e \<Rightarrow> Inl e
            | Inr avg' \<Rightarrow> weighted_sum avg' reports total_samples (Suc i) rest))"

text \<open>The closing loop of \<^verbatim>\<open>federated_averaging\<close> over the baseline.\<close>

fun load_updated ::
  "('a::real_vector) list \<Rightarrow> nat \<Rightarrow> 'a weights \<Rightarrow> error + 'a weights" where
  "load_updated avg_update i [] = Inr []"
| "load_updated avg_update i ((name, weight) # rest) =
     (if length avg_update \<le> i then Inl IndexError
      else (case load_updated avg_update (Suc i) rest of
              Inl e \<Rightarrow> Inl e
            | Inr updated \<Rightarrow> Inr ((name, weight + avg_update ! i) # updated)))"

text \<open>The closing loop of \<^verbatim>\<open>federated_async\<close> over the baseline.\<close>

fun load_blended ::
  "real \<Rightarrow> ('a::real_vector) list \<Rightarrow> nat \<Rightarrow> 'a weights \<Rightarrow> error + 'a weights" where
  "load_blended alpha_t new_weights i [] = Inr []"
| "load_blended alpha_t new_weights i ((name, weight) # rest) =
     (if length new_weights \<le> i then Inl IndexError
      else (case load_blended alpha_t new_weights (Suc i) rest of
              Inl e \<Rightarrow> Inl e
            | Inr updated \<Rightarrow>
                Inr ((name, (1 - alpha_t) *\<^sub>R weight + alpha_t *\<^sub>R (new_weights ! i))
                       # updated)))"

text \<open>
  \<^verbatim>\<open>federated_averaging\<close>; the first argument is \<^verbatim>\<open>fl_model.extract_weights(self.model)\<close>.
  \<^verbatim>\<open>updates[0]\<close> raises on an empty batch.
\<close>

definition federated_averaging ::
  "('a::real_vector) weights \<Rightarrow> 'a report list \<Rightarrow> error + 'a weights" where
  "federated_averaging model reports =
     (case extract_client_updates model reports of
        Inl e \<Rightarrow> Inl e
      | Inr updates \<Rightarrow>
          (let total_samples = sum_list (map num_samples reports) in
           case updates of
             [] \<Rightarrow> Inl IndexError
           | first # _ \<Rightarrow>
               (case weighted_sum (map (\<lambda>_. 0) first) reports total_samples 0 updates of
                  Inl e \<Rightarrow> Inl e
                | Inr avg_update \<Rightarrow> load_updated avg_update 0 model)))"

text \<open>
  \<^verbatim>\<open>federated_async\<close>: \<open>alpha\<close> and \<open>staleness_func\<close> are the server's attributes of these
  names, \<open>model\<close> is the global model as it stands when the aggregation runs.
\<close>

definition federated_async ::
  "real \<Rightarrow> string \<Rightarrow> ('a::real_vector) weights \<Rightarrow> 'a report list \<Rightarrow> real option
     \<Rightarrow> error + 'a weights" where
  "federated_async alpha staleness_func model reports s =
     (let ws = extract_client_weights reports;
          total_samples = sum_list (map num_samples reports) in
      case ws of
        [] \<Rightarrow> Inl IndexError
      | first # _ \<Rightarrow>
          (case weighted_sum (map (\<lambda>_. 0) first) reports total_samples 0 ws of
             Inl e \<Rightarrow> Inl e
           | Inr new_weights \<Rightarrow>
               (case staleness staleness_func s of
                  Inl e \<Rightarrow> Inl e
                | Inr PyNone \<Rightarrow> Inl TypeError
                | Inr (PyComplex z) \<Rightarrow> Inl ComplexCoefficient
                | Inr (PyFloat f) \<Rightarrow> load_blended (alpha * f) new_weights 0 model)))"

text \<open>\<^verbatim>\<open>aggregation\<close>: the dispatch on the synchrony mode.\<close>

definition aggregation ::
  "string \<Rightarrow> real \<Rightarrow> string \<Rightarrow> ('a::real_vector) weights \<Rightarrow> 'a report list
     \<Rightarrow> real option \<Rightarrow> error + 'a weights" where
  "aggregation sync_type alpha staleness_func model reports s =
     (if sync_type = ''sync'' then federated_averaging model reports
      else if sync_type = ''async'' then federated_async alpha staleness_func model reports s
      else Inl NotImplementedError)"

section \<open>Groups, records and the priority queue\<close>

text \<open>
  A client, as far as the server reads it: an identity and the simulated delay of its
  current training pass. \<^verbatim>\<open>Group\<close> holds its clients and the two times; the code reads
  the times only after \<^verbatim>\<open>set_download_time\<close> and \<^verbatim>\<open>set_aggregate_time\<close> have set them,
  so \<open>Group\<close> starts them at 0.
\<close>

record client =
  cid :: nat
  delay :: real

record group =
  clients :: "client list"
  download_time :: real
  aggregate_time :: real

definition Group :: "client list \<Rightarrow> group" where
  "Group client_list = \<lparr>clients = client_list, download_time = 0, aggregate_time = 0\<rparr>"

text \<open>Python's \<^verbatim>\<open>max\<close> over a list of floats; it raises \<^verbatim>\<open>ValueError\<close> on the empty list.\<close>

fun py_max :: "real list \<Rightarrow> error + real" where
  "py_max [] = Inl ValueError"
| "py_max (x # xs) = Inr (fold max xs x)"

definition set_download_time :: "group \<Rightarrow> real \<Rightarrow> group" where
  "set_download_time g t = g\<lparr>download_time := t\<rparr>"

definition set_aggregate_time :: "group \<Rightarrow> error + group" where
  "set_aggregate_time g =
     (case py_max (map delay (clients g)) of
        Inl e \<Rightarrow> Inl e
      | Inr m \<Rightarrow> Inr (g\<lparr>aggregate_time := download_time g + m\<rparr>))"

text \<open>\<^verbatim>\<open>Record\<close>: the two parallel lists.\<close>

record records =
  rec_t :: "real list"
  rec_acc :: "real list"

definition append_acc_record :: "records \<Rightarrow> real \<Rightarrow> real \<Rightarrow> records" where
  "append_acc_record r t a = r\<lparr>rec_t := rec_t r @ [t], rec_acc := rec_acc r @ [a]\<rparr>"

definition get_latest_t :: "records \<Rightarrow> error + real" where
  "get_latest_t r = (if rec_t r = [] then Inl IndexError else Inr (last (rec_t r)))"

definition get_latest_acc :: "records \<Rightarrow> error + real" where
  "get_latest_acc r = (if rec_acc r = [] then Inl IndexError else Inr (last (rec_acc r)))"

text \<open>
  The queue holds tuples \<^verbatim>\<open>(group.aggregate_time, group)\<close>. Python compares two tuples at
  the first position where they differ: with distinct times the times decide; with equal
  times the comparison falls to the two \<^verbatim>\<open>Group\<close> objects, which define no order, and
  raises \<^verbatim>\<open>TypeError\<close>. (A group is never in the queue twice, so the two objects are
  never the same one.)
\<close>

type_synonym entry = "real \<times> group"

definition entry_lt :: "entry \<Rightarrow> entry \<Rightarrow> error + bool" where
  "entry_lt a b = (if fst a = fst b then Inl TypeError else Inr (fst a < fst b))"

text \<open>
  \<^verbatim>\<open>queue.PriorityQueue\<close> keeps its entries in a list through \<^verbatim>\<open>heapq\<close>: \<^verbatim>\<open>put\<close> is
  \<^verbatim>\<open>heappush\<close>, \<^verbatim>\<open>get\<close> is \<^verbatim>\<open>heappop\<close>. The four functions below follow
  \<^verbatim>\<open>heapq._siftdown\<close>, \<^verbatim>\<open>heapq._siftup\<close>, \<^verbatim>\<open>heapq.heappush\<close> and \<^verbatim>\<open>heapq.heappop\<close>
  statement by statement, so that a comparison is made, and can raise, exactly where the
  library makes it.
\<close>

function siftdown_loop :: "entry list \<Rightarrow> entry \<Rightarrow> nat \<Rightarrow> nat \<Rightarrow> error + entry list" where
  "siftdown_loop heap newitem startpos pos =
     (if startpos < pos then
        (case entry_lt newitem (heap ! ((pos - 1) div 2)) of
           Inl e \<Rightarrow> Inl e
         | Inr lt \<Rightarrow>
             if lt then siftdown_loop (heap[pos := heap ! ((pos - 1) div 2)]) newitem startpos
                          ((pos - 1) div 2)
             else Inr (heap[pos := newitem]))
      else Inr (heap[pos := newitem]))"
  by pat_completeness auto
termination
  by (relation "measure (\<lambda>(heap, newitem, startpos, pos). pos)") auto

declare siftdown_loop.simps [simp del]

definition siftdown :: "entry list \<Rightarrow> nat \<Rightarrow> nat \<Rightarrow> error + entry list" where
  "siftdown heap startpos pos = siftdown_loop heap (heap ! pos) startpos pos"

function siftup_loop :: "entry list \<Rightarrow> nat \<Rightarrow> nat \<Rightarrow> error + entry list \<times> nat" where
  "siftup_loop heap endpos pos =
     (if 2 * pos + 1 < endpos then
        (case (if 2 * pos + 2 < endpos
               then entry_lt (heap ! (2 * pos + 1)) (heap ! (2 * pos + 2))
               else Inr True) of
           Inl e \<Rightarrow> Inl e
         | Inr lt \<Rightarrow>
             (let childpos = (if lt then 2 * pos + 1 else 2 * pos + 2) in
              siftup_loop (heap[pos := heap ! childpos]) endpos childpos))
      else Inr (heap, pos))"
  by pat_completeness auto
termination
  by (relation "measure (\<lambda>(heap, endpos, pos). endpos - pos)") (auto split: if_splits)

declare siftup_loop.simps [simp del]

definition siftup :: "entry list \<Rightarrow> nat \<Rightarrow> error + entry list" where
  "siftup heap pos =
     (let newitem = heap ! pos in
      case siftup_loop heap (length heap) pos of
        Inl e \<Rightarrow> Inl e
      | Inr (heap', pos') \<Rightarrow> siftdown (heap'[pos' := newitem]) pos pos')"

definition heappush :: "entry list \<Rightarrow> entry \<Rightarrow> error + entry list" where
  "heappush heap item = siftdown (heap @ [item]) 0 (length heap)"

definition heappop :: "entry list \<Rightarrow> error + entry \<times> entry list" where
  "heappop heap =
     (if heap = [] then Inl IndexError
      else (let lastelt = last heap; rest = butlast heap in
            if rest = [] then Inr (lastelt, rest)
            else (case siftup (rest[0 := lastelt]) 0 of
                    Inl e \<Rightarrow> Inl e
                  | Inr heap' \<Rightarrow> Inr (rest ! 0, heap'))))"


section \<open>Configuration, environment and server state\<close>

text \<open>
  The fields of the configuration the rounds read: \<^verbatim>\<open>sync.type\<close>, \<^verbatim>\<open>sync.alpha\<close>,
  \<^verbatim>\<open>sync.staleness_func\<close>, \<^verbatim>\<open>sync.interval\<close>, \<^verbatim>\<open>fl.rounds\<close>, \<^verbatim>\<open>fl.target_accuracy\<close>
  and \<^verbatim>\<open>clients.do_test\<close>.
\<close>

record config =
  cfg_sync_type :: string
  cfg_alpha :: real
  cfg_staleness_func :: string
  cfg_interval :: real
  cfg_rounds :: int
  cfg_target_accuracy :: "real option"
  cfg_do_test :: bool

text \<open>
  What the server calls and does not define. Each is an oracle indexed by the number of
  calls made so far, so that its outcome may depend on everything that happened before:
  \<open>sample n\<close> is the outcome of the \<open>n\<close>-th \<^verbatim>\<open>random.sample\<close> over the client pool,
  \<open>draw_delay n c\<close> the delay the \<open>n\<close>-th \<^verbatim>\<open>set_delay\<close> gives client \<open>c\<close>, \<open>train n c\<close> the
  report of the \<open>n\<close>-th \<^verbatim>\<open>client.run\<close>, \<open>test_model\<close> is \<^verbatim>\<open>fl_model.test\<close> on the loaded
  weights.
\<close>

record 'a env =
  sample :: "nat \<Rightarrow> client list"
  draw_delay :: "nat \<Rightarrow> client \<Rightarrow> real"
  train :: "nat \<Rightarrow> client \<Rightarrow> 'a report"
  test_model :: "(string \<times> 'a) list \<Rightarrow> real"

text \<open>
  The server: the global model (its named weights), the \<^verbatim>\<open>Record\<close>, and how many times
  each oracle has been consulted. Saving models and reports to disk leaves no trace in
  what the rounds compute and is not part of the state.
\<close>

record 'a server =
  srv_model :: "(string \<times> 'a) list"
  srv_records :: records
  n_sample :: nat
  n_delay :: nat
  n_train :: nat

section \<open>The two rounds\<close>

definition selection :: "'a env \<Rightarrow> 'a server \<Rightarrow> group list" where
  "selection env server = map (\<lambda>c. Group [c]) (sample env (n_sample server))"

text \<open>
  Modelled from the spec: \<^verbatim>\<open>Client.set_delay\<close> (\<^verbatim>\<open>client.py\<close> is not among the sources).
  In the client contract of the specification it resamples the delay of the client; the
  value is the oracle's draw. \<open>set_delays\<close> is the call on each client of a list in turn.
\<close>

fun set_delays :: "(nat \<Rightarrow> client \<Rightarrow> real) \<Rightarrow> nat \<Rightarrow> client list \<Rightarrow> client list" where
  "set_delays draw n [] = []"
| "set_delays draw n (c # cs) = c\<lparr>delay := draw n c\<rparr> # set_delays draw (Suc n) cs"

text \<open>
  The loop that opens both rounds: every client of every selected group draws its delay,
  then the group takes \<open>T_old\<close> as download time and derives its aggregate time.
\<close>

fun prepare_groups ::
  "(nat \<Rightarrow> client \<Rightarrow> real) \<Rightarrow> real \<Rightarrow> nat \<Rightarrow> group list \<Rightarrow> error + group list" where
  "prepare_groups draw T_old n [] = Inr []"
| "prepare_groups draw T_old n (g # gs) =
     (case set_aggregate_time
             (set_download_time (g\<lparr>clients := set_delays draw n (clients g)\<rparr>) T_old) of
        Inl e \<Rightarrow> Inl e
      | Inr g' \<Rightarrow>
          (case prepare_groups draw T_old (n + length (clients g)) gs of
             Inl e \<Rightarrow> Inl e
           | Inr gs' \<Rightarrow> Inr (g' # gs')))"

text \<open>\<^verbatim>\<open>for group in sample_groups: queue.put((group.aggregate_time, group))\<close>\<close>

fun put_all :: "entry list \<Rightarrow> group list \<Rightarrow> error + entry list" where
  "put_all q [] = Inr q"
| "put_all q (g # gs) =
     (case heappush q (aggregate_time g, g) of
        Inl e \<Rightarrow> Inl e
      | Inr q' \<Rightarrow> put_all q' gs)"

text \<open>
  Modelled from the spec: \<^verbatim>\<open>Client.async_configure\<close>, \<^verbatim>\<open>Client.configure\<close>, \<^verbatim>\<open>Client.run\<close>
  and \<^verbatim>\<open>Client.get_report\<close> (\<^verbatim>\<open>client.py\<close> is not among the sources). In the client
  contract of the specification they produce the report of the client and leave its delay
  as it is: \<^verbatim>\<open>set_delay\<close> is the only operation that changes it. The clients of a group
  run one after the other, and \<^verbatim>\<open>reporting\<close> collects their reports.
\<close>

fun run_clients :: "(nat \<Rightarrow> client \<Rightarrow> 'a report) \<Rightarrow> nat \<Rightarrow> client list \<Rightarrow> 'a report list" where
  "run_clients tr n [] = []"
| "run_clients tr n (c # cs) = tr n c # run_clients tr (Suc n) cs"

fun accuracy_loop :: "real \<Rightarrow> int \<Rightarrow> 'a report list \<Rightarrow> error + real" where
  "accuracy_loop a total_samples [] = Inr a"
| "accuracy_loop a total_samples (r # rs) =
     (if total_samples = 0 then Inl ZeroDivisionError
      else accuracy_loop
             (a + accuracy r * (real_of_int (num_samples r) / real_of_int total_samples))
             total_samples rs)"

definition accuracy_averaging :: "'a report list \<Rightarrow> error + real" where
  "accuracy_averaging reports = accuracy_loop 0 (sum_list (map num_samples reports)) reports"

text \<open>The accuracy of the round: averaged from the reports, or tested on the server.\<close>

definition evaluate ::
  "config \<Rightarrow> 'a env \<Rightarrow> 'a report list \<Rightarrow> (string \<times> 'a) list \<Rightarrow> error + real" where
  "evaluate cfg env reports updated_weights =
     (if cfg_do_test cfg then accuracy_averaging reports
      else Inr (test_model env updated_weights))"

text \<open>
  The state of the \<^verbatim>\<open>while\<close> loop of \<^verbatim>\<open>async_round\<close>: the server, the queue, and a log
  that is not program state: for every pass made so far, the group as it was popped and
  the staleness that was handed to \<^verbatim>\<open>aggregation\<close>.
\<close>

record 'a loop_state =
  srv :: "'a server"
  queue :: "entry list"
  passed :: "(group \<times> real) list"

text \<open>
  One pass of the loop body: pop, train, aggregate into the current model, record, and
  put the group back when \<^verbatim>\<open>T_cur - T_old <= T_async\<close>.
\<close>

definition async_pass ::
  "config \<Rightarrow> ('a::real_vector) env \<Rightarrow> real \<Rightarrow> real \<Rightarrow> 'a loop_state \<Rightarrow> error + 'a loop_state"
  where
  "async_pass cfg env T_old T_async st =
     (case heappop (queue st) of
        Inl e \<Rightarrow> Inl e
      | Inr (item, q) \<Rightarrow>
          (let select_group = snd item;
               select_clients = clients select_group;
               reports = run_clients (train env) (n_train (srv st)) select_clients;
               T_cur = aggregate_time select_group;
               s = aggregate_time select_group - download_time select_group
           in
           case aggregation (cfg_sync_type cfg) (cfg_alpha cfg) (cfg_staleness_func cfg)
                  (srv_model (srv st)) reports (Some s) of
             Inl e \<Rightarrow> Inl e
           | Inr updated_weights \<Rightarrow>
               (case evaluate cfg env reports updated_weights of
                  Inl e \<Rightarrow> Inl e
                | Inr a \<Rightarrow>
                    (let server' = (srv st)
                           \<lparr>srv_model := updated_weights,
                            srv_records := append_acc_record (srv_records (srv st)) T_cur a,
                            n_train := n_train (srv st) + length select_clients\<rparr>;
                         log = passed st @ [(select_group, s)]
                     in
                     if T_cur - T_old \<le> T_async then
                       (case set_aggregate_time (set_download_time select_group T_cur) of
                          Inl e \<Rightarrow> Inl e
                        | Inr g \<Rightarrow>
                            (case heappush q (aggregate_time g, g) of
                               Inl e \<Rightarrow> Inl e
                             | Inr q' \<Rightarrow> Inr \<lparr>srv = server', queue = q', passed = log\<rparr>))
                     else Inr \<lparr>srv = server', queue = q, passed = log\<rparr>))))"

text \<open>
  The loop state after \<open>n\<close> passes, or at the exit of the loop when the queue empties
  earlier; and the loop itself, which yields no result (\<open>None\<close>) when \<open>n\<close> passes do not
  empty the queue.
\<close>

fun async_iter ::
  "nat \<Rightarrow> config \<Rightarrow> ('a::real_vector) env \<Rightarrow> real \<Rightarrow> real \<Rightarrow> 'a loop_state
     \<Rightarrow> error + 'a loop_state" where
  "async_iter 0 cfg env T_old T_async st = Inr st"
| "async_iter (Suc n) cfg env T_old T_async st =
     (if queue st = [] then Inr st
      else (case async_pass cfg env T_old T_async st of
              Inl e \<Rightarrow> Inl e
            | Inr st' \<Rightarrow> async_iter n cfg env T_old T_async st'))"

definition async_while ::
  "nat \<Rightarrow> config \<Rightarrow> ('a::real_vector) env \<Rightarrow> real \<Rightarrow> real \<Rightarrow> 'a loop_state
     \<Rightarrow> (error + 'a loop_state) option" where
  "async_while n cfg env T_old T_async st =
     (case async_iter n cfg env T_old T_async st of
        Inl e \<Rightarrow> Some (Inl e)
      | Inr st' \<Rightarrow> if queue st' = [] then Some (Inr st') else None)"

text \<open>The state in which \<^verbatim>\<open>async_round\<close> enters its loop.\<close>

definition async_start ::
  "('a::real_vector) env \<Rightarrow> real \<Rightarrow> 'a server \<Rightarrow> error + 'a loop_state" where
  "async_start env T_old server =
     (let sample_groups = selection env server in
      case prepare_groups (draw_delay env) T_old (n_delay server) sample_groups of
        Inl e \<Rightarrow> Inl e
      | Inr groups \<Rightarrow>
          (case put_all [] groups of
             Inl e \<Rightarrow> Inl e
           | Inr q \<Rightarrow>
               Inr \<lparr>srv = server
                           \<lparr>n_sample := Suc (n_sample server),
                            n_delay := n_delay server + length (concat (map clients groups))\<rparr>,
                    queue = q, passed = []\<rparr>))"

text \<open>\<^verbatim>\<open>async_round\<close>: the accuracy, the new time and the server it leaves.\<close>

definition async_round ::
  "nat \<Rightarrow> config \<Rightarrow> ('a::real_vector) env \<Rightarrow> real \<Rightarrow> real \<Rightarrow> 'a server
     \<Rightarrow> (error + real \<times> real \<times> 'a server) option" where
  "async_round fuel cfg env T_old T_async server =
     (case async_start env T_old server of
        Inl e \<Rightarrow> Some (Inl e)
      | Inr st0 \<Rightarrow>
          (case async_while fuel cfg env T_old T_async st0 of
             None \<Rightarrow> None
           | Some (Inl e) \<Rightarrow> Some (Inl e)
           | Some (Inr st) \<Rightarrow>
               (case get_latest_acc (srv_records (srv st)) of
                  Inl e \<Rightarrow> Some (Inl e)
                | Inr a \<Rightarrow>
                    (case get_latest_t (srv_records (srv st)) of
                       Inl e \<Rightarrow> Some (Inl e)
                     | Inr t \<Rightarrow> Some (Inr (a, t, srv st))))))"

text \<open>\<^verbatim>\<open>sync_round\<close>: all selected clients train, the slowest one sets the time.\<close>

definition sync_round ::
  "config \<Rightarrow> ('a::real_vector) env \<Rightarrow> real \<Rightarrow> 'a server \<Rightarrow> error + real \<times> real \<times> 'a server"
  where
  "sync_round cfg env T_old server =
     (let sample_groups = selection env server in
      case prepare_groups (draw_delay env) T_old (n_delay server) sample_groups of
        Inl e \<Rightarrow> Inl e
      | Inr groups \<Rightarrow>
          (let sample_clients = concat (map clients groups) in
           case py_max (map delay sample_clients) of
             Inl e \<Rightarrow> Inl e
           | Inr max_delay \<Rightarrow>
               (let reports = run_clients (train env) (n_train server) sample_clients;
                    T_cur = T_old + max_delay
                in
                case aggregation (cfg_sync_type cfg) (cfg_alpha cfg) (cfg_staleness_func cfg)
                       (srv_model server) reports None of
                  Inl e \<Rightarrow> Inl e
                | Inr updated_weights \<Rightarrow>
                    (case evaluate cfg env reports updated_weights of
                       Inl e \<Rightarrow> Inl e
                     | Inr a \<Rightarrow>
                         Inr (a, T_cur,
                              server
                                \<lparr>srv_model := updated_weights,
                                 srv_records := append_acc_record (srv_records server) T_cur a,
                                 n_sample := Suc (n_sample server),
                                 n_delay := n_delay server + length sample_clients,
                                 n_train := n_train server + length sample_clients\<rparr>)))))"

section \<open>The run\<close>

text \<open>
  \<^verbatim>\<open>if target_accuracy and (accuracy >= target_accuracy)\<close>: an absent or zero target is
  false.
\<close>

definition target_met :: "config \<Rightarrow> real \<Rightarrow> bool" where
  "target_met cfg a =
     (case cfg_target_accuracy cfg of
        None \<Rightarrow> False
      | Some target \<Rightarrow> target \<noteq> 0 \<and> target \<le> a)"

text \<open>
  The loop \<^verbatim>\<open>for round in range(1, rounds + 1)\<close> of \<^verbatim>\<open>run\<close>, over the round numbers left;
  it yields the time \<^verbatim>\<open>T_old\<close> and the server at its exit. \<open>fuel\<close> bounds the passes of each
  async round.
\<close>

fun run_rounds ::
  "nat \<Rightarrow> config \<Rightarrow> ('a::real_vector) env \<Rightarrow> int list \<Rightarrow> real \<Rightarrow> 'a server
     \<Rightarrow> (error + real \<times> 'a server) option" where
  "run_rounds fuel cfg env [] T_old server = Some (Inr (T_old, server))"
| "run_rounds fuel cfg env (r # rs) T_old server =
     (case (if cfg_sync_type cfg = ''sync'' then Some (sync_round cfg env T_old server)
            else if cfg_sync_type cfg = ''async''
              then async_round fuel cfg env T_old (cfg_interval cfg) server
            else Some (Inl NotImplementedError)) of
        None \<Rightarrow> None
      | Some (Inl e) \<Rightarrow> Some (Inl e)
      | Some (Inr (a, T_new, server')) \<Rightarrow>
          if target_met cfg a then Some (Inr (T_new, server'))
          else run_rounds fuel cfg env rs T_new server')"

text \<open>\<^verbatim>\<open>run\<close>: fresh records, time 0, rounds 1 to \<^verbatim>\<open>rounds\<close>; what it leaves is the server.\<close>

definition run ::
  "nat \<Rightarrow> config \<Rightarrow> ('a::real_vector) env \<Rightarrow> 'a server \<Rightarrow> (error + 'a server) option" where
  "run fuel cfg env server =
     (case run_rounds fuel cfg env [1..cfg_rounds cfg] 0
             (server\<lparr>srv_records := \<lparr>rec_t = [], rec_acc = []\<rparr>\<rparr>) of
        None \<Rightarrow> None
      | Some (Inl e) \<Rightarrow> Some (Inl e)
      | Some (Inr (T, server')) \<Rightarrow> Some (Inr server'))"


section \<open>Predicates used in the statements\<close>

text \<open>The order a binary heap keeps in its list: no entry is earlier than its parent.\<close>

definition parent_le :: "entry list \<Rightarrow> nat \<Rightarrow> bool" where
  "parent_le h i = (fst (h ! ((i - 1) div 2)) \<le> fst (h ! i))"

definition is_heap :: "entry list \<Rightarrow> bool" where
  "is_heap h = (\<forall>i<length h. 0 < i \<longrightarrow> parent_le h i)"

text \<open>
  The states of the two sifting loops: every edge is in order except the one above
  position \<open>p\<close> (\<open>heap_but\<close>), or except those that touch \<open>p\<close> (\<open>hole_ok\<close>); and the parent of
  \<open>p\<close> is no later than the children of \<open>p\<close> (\<open>grand_le\<close>).
\<close>

definition heap_but :: "entry list \<Rightarrow> nat \<Rightarrow> bool" where
  "heap_but v p = (\<forall>i<length v. 0 < i \<and> i \<noteq> p \<longrightarrow> parent_le v i)"

definition hole_ok :: "entry list \<Rightarrow> nat \<Rightarrow> bool" where
  "hole_ok h p = (\<forall>i<length h. 0 < i \<and> i \<noteq> p \<and> (i - 1) div 2 \<noteq> p \<longrightarrow> parent_le h i)"

definition grand_le :: "entry list \<Rightarrow> nat \<Rightarrow> bool" where
  "grand_le h p =
     (0 < p \<longrightarrow> (\<forall>c<length h. 0 < c \<and> (c - 1) div 2 = p \<longrightarrow>
                   fst (h ! ((p - 1) div 2)) \<le> fst (h ! c)))"

text \<open>
  The slowest client of a group, and what \<^verbatim>\<open>set_aggregate_time\<close> establishes for a queue
  entry: its key is the group's aggregate time, which is the download time plus the
  delay of the slowest client.
\<close>

definition slowest :: "group \<Rightarrow> real" where
  "slowest g = Max (set (map delay (clients g)))"

definition timed :: "entry \<Rightarrow> bool" where
  "timed e =
     (fst e = aggregate_time (snd e) \<and> clients (snd e) \<noteq> [] \<and>
      aggregate_time (snd e) = download_time (snd e) + slowest (snd e))"

definition delays_nonneg :: "entry \<Rightarrow> bool" where
  "delays_nonneg e = (\<forall>c\<in>set (clients (snd e)). 0 \<le> delay c)"

text \<open>The group a pass puts back: same clients, downloaded at the time of the pass.\<close>

definition requeued :: "group \<Rightarrow> group" where
  "requeued g =
     g\<lparr>download_time := aggregate_time g, aggregate_time := aggregate_time g + slowest g\<rparr>"

text \<open>
  What holds of the loop state before and after every pass: the queue is a heap of
  well-timed entries and every logged staleness is the slowest delay of its group
  (\<open>loop_inv\<close>); no delay is negative (\<open>loop_nonneg\<close>); the recorded times are in order
  and none is later than a pending entry (\<open>loop_mono\<close>), and so are the times of the
  groups popped in this round (\<open>loop_order\<close>).
\<close>

definition loop_inv :: "'a loop_state \<Rightarrow> bool" where
  "loop_inv st =
     (is_heap (queue st) \<and> (\<forall>e\<in>set (queue st). timed e) \<and>
      (\<forall>p\<in>set (passed st).
          snd p = aggregate_time (fst p) - download_time (fst p) \<and> snd p = slowest (fst p)))"

definition loop_nonneg :: "'a loop_state \<Rightarrow> bool" where
  "loop_nonneg st =
     ((\<forall>e\<in>set (queue st). delays_nonneg e) \<and> (\<forall>p\<in>set (passed st). 0 \<le> snd p))"

definition popped_times :: "'a loop_state \<Rightarrow> real list" where
  "popped_times st = map (\<lambda>p. aggregate_time (fst p)) (passed st)"

definition loop_mono :: "'a loop_state \<Rightarrow> bool" where
  "loop_mono st =
     (sorted (rec_t (srv_records (srv st))) \<and>
      (\<forall>e\<in>set (queue st). \<forall>t\<in>set (rec_t (srv_records (srv st))). t \<le> fst e))"

definition loop_order :: "'a loop_state \<Rightarrow> bool" where
  "loop_order st =
     (sorted (popped_times st) \<and>
      (\<forall>e\<in>set (queue st). \<forall>t\<in>set (popped_times st). t \<le> fst e))"

text \<open>
  A bound on the passes an entry still causes: one when it is popped beyond the window,
  otherwise one for each time its group fits into what is left of the window, and two.
\<close>

definition budget :: "real \<Rightarrow> real \<Rightarrow> entry \<Rightarrow> nat" where
  "budget T_old T_async e =
     (if fst e - T_old \<le> T_async
      then 2 + nat \<lfloor>(T_async - (fst e - T_old)) / slowest (snd e)\<rfloor>
      else 1)"

definition passes_left :: "real \<Rightarrow> real \<Rightarrow> entry list \<Rightarrow> nat" where
  "passes_left T_old T_async q = sum_list (map (budget T_old T_async) q)"

definition delays_pos :: "entry \<Rightarrow> bool" where
  "delays_pos e = (\<forall>c\<in>set (clients (snd e)). 0 < delay c)"


section \<open>Concrete rounds\<close>

text \<open>
  The inputs of the closed statements below: a server with one scalar weight, clients
  whose training always reports the weight 1 from one sample, and three ways of drawing
  delays.
\<close>

definition server0 :: "real server" where
  "server0 = \<lparr>srv_model = [(''w'', 0)], srv_records = \<lparr>rec_t = [], rec_acc = []\<rparr>,
              n_sample = 0, n_delay = 0, n_train = 0\<rparr>"

definition report_one :: "client \<Rightarrow> real report" where
  "report_one c = \<lparr>client_id = cid c, weights = [(''w'', 1)], num_samples = 1, accuracy = 1\<rparr>"

definition cfg_async :: config where
  "cfg_async = \<lparr>cfg_sync_type = ''async'', cfg_alpha = 1, cfg_staleness_func = ''constant'',
                cfg_interval = 10, cfg_rounds = 1, cfg_target_accuracy = None,
                cfg_do_test = True\<rparr>"

text \<open>Two clients that both draw the delay 2.\<close>

definition env_tie :: "real env" where
  "env_tie = \<lparr>sample = (\<lambda>n. [\<lparr>cid = 0, delay = 0\<rparr>, \<lparr>cid = 1, delay = 0\<rparr>]),
              draw_delay = (\<lambda>n c. 2),
              train = (\<lambda>n. report_one),
              test_model = (\<lambda>w. 0)\<rparr>"

text \<open>Two clients; the first draws the delay 20, beyond the window of 10, the second 4.\<close>

definition env_late :: "real env" where
  "env_late = \<lparr>sample = (\<lambda>n. [\<lparr>cid = 0, delay = 0\<rparr>, \<lparr>cid = 1, delay = 0\<rparr>]),
               draw_delay = (\<lambda>n c. if cid c = 0 then 20 else 4),
               train = (\<lambda>n. report_one),
               test_model = (\<lambda>w. 0)\<rparr>"

text \<open>One client; the \<open>n\<close>-th draw of a delay gives \<open>6 + n\<close>.\<close>

definition env_fresh :: "real env" where
  "env_fresh = \<lparr>sample = (\<lambda>n. [\<lparr>cid = 0, delay = 0\<rparr>]),
                draw_delay = (\<lambda>n c. 6 + real n),
                train = (\<lambda>n. report_one),
                test_model = (\<lambda>w. 0)\<rparr>"

text \<open>The loop states these rounds go through.\<close>

definition late_start :: "real loop_state" where
  "late_start =
     \<lparr>srv = \<lparr>srv_model = [(''w'', 0)], srv_records = \<lparr>rec_t = [], rec_acc = []\<rparr>,
             n_sample = 1, n_delay = 2, n_train = 0\<rparr>,
      queue = [(4, \<lparr>clients = [\<lparr>cid = 1, delay = 4\<rparr>], download_time = 0,
                    aggregate_time = 4\<rparr>),
               (20, \<lparr>clients = [\<lparr>cid = 0, delay = 20\<rparr>], download_time = 0,
                     aggregate_time = 20\<rparr>)],
      passed = []\<rparr>"

definition late_final :: "real loop_state" where
  "late_final =
     \<lparr>srv = \<lparr>srv_model = [(''w'', 1)],
             srv_records = \<lparr>rec_t = [4, 8, 12, 20], rec_acc = [1, 1, 1, 1]\<rparr>,
             n_sample = 1, n_delay = 2, n_train = 4\<rparr>,
      queue = [],
      passed =
        [(\<lparr>clients = [\<lparr>cid = 1, delay = 4\<rparr>], download_time = 0, aggregate_time = 4\<rparr>, 4),
         (\<lparr>clients = [\<lparr>cid = 1, delay = 4\<rparr>], download_time = 4, aggregate_time = 8\<rparr>, 4),
         (\<lparr>clients = [\<lparr>cid = 1, delay = 4\<rparr>], download_time = 8, aggregate_time = 12\<rparr>, 4),
         (\<lparr>clients = [\<lparr>cid = 0, delay = 20\<rparr>], download_time = 0, aggregate_time = 20\<rparr>,
          20)]\<rparr>"

definition fresh_start :: "real loop_state" where
  "fresh_start =
     \<lparr>srv = \<lparr>srv_model = [(''w'', 0)], srv_records = \<lparr>rec_t = [], rec_acc = []\<rparr>,
             n_sample = 1, n_delay = 1, n_train = 0\<rparr>,
      queue = [(6, \<lparr>clients = [\<lparr>cid = 0, delay = 6\<rparr>], download_time = 0,
                    aggregate_time = 6\<rparr>)],
      passed = []\<rparr>"

definition fresh_next :: "real loop_state" where
  "fresh_next =
     \<lparr>srv = \<lparr>srv_model = [(''w'', 1)], srv_records = \<lparr>rec_t = [6], rec_acc = [1]\<rparr>,
             n_sample = 1, n_delay = 1, n_train = 1\<rparr>,
      queue = [(12, \<lparr>clients = [\<lparr>cid = 0, delay = 6\<rparr>], download_time = 6,
                     aggregate_time = 12\<rparr>)],
      passed = [(\<lparr>clients = [\<lparr>cid = 0, delay = 6\<rparr>], download_time = 0,
                  aggregate_time = 6\<rparr>, 6)]\<rparr>"


section \<open>Properties of the staleness function\<close>

lemma polynomial_value:
  "0 \<le> s \<Longrightarrow> staleness ''polynomial'' (Some s) = Inr (PyFloat ((s + 1) powr (- (1 / 2))))"
  by (simp add: staleness_def pow_neg_half_def)

lemma hinge_value:
  "staleness ''hinge'' (Some s) = Inr (PyFloat (if s \<le> 4 then 1 else 1 / (10 * (s - 4) + 1)))"
  by (simp add: staleness_def truediv_def)

lemma polynomial_strict:
  assumes "0 \<le> s1" "s1 < s2"
  shows "(s2 + 1) powr (- (1 / 2)) < (s1 + 1 :: real) powr (- (1 / 2))"
  using assms by (intro powr_less_mono2_neg) auto

lemma hinge_mono:
  assumes "s1 \<le> s2"
  shows "(if s2 \<le> 4 then 1 else 1 / (10 * (s2 - 4) + 1)) \<le> (if s1 \<le> 4 then 1 else 1 / (10 * (s1 - 4) + 1 :: real))"
  using assms by (auto simp: field_simps)

text \<open>
  Claim C6. With the name \<^verbatim>\<open>constant\<close> the coefficient is 1 at every staleness; with
  \<^verbatim>\<open>polynomial\<close> it is \<open>(s + 1)\<close> to the power \<open>- 1/2\<close> for \<open>s \<ge> 0\<close>, which is 1 at 0 and
  strictly decreasing; with \<^verbatim>\<open>hinge\<close> it is 1 up to \<open>s = 4\<close> and \<open>1 / (10 (s - 4) + 1)\<close>
  beyond; and for the last two a larger non-negative staleness never gives a larger
  coefficient. Floats are read as reals.
\<close>

theorem staleness_laws:
  "staleness ''constant'' (Some s) = Inr (PyFloat 1)
   \<and> (0 \<le> s \<longrightarrow> staleness ''polynomial'' (Some s) = Inr (PyFloat ((s + 1) powr (- (1 / 2)))))
   \<and> staleness ''polynomial'' (Some 0) = Inr (PyFloat 1)
   \<and> (0 \<le> s1 \<and> s1 < s2 \<longrightarrow>
        (\<exists>f1 f2. staleness ''polynomial'' (Some s1) = Inr (PyFloat f1)
               \<and> staleness ''polynomial'' (Some s2) = Inr (PyFloat f2) \<and> f2 < f1))
   \<and> (s \<le> 4 \<longrightarrow> staleness ''hinge'' (Some s) = Inr (PyFloat 1))
   \<and> (4 < s \<longrightarrow> staleness ''hinge'' (Some s) = Inr (PyFloat (1 / (10 * (s - 4) + 1))))
   \<and> (0 \<le> s1 \<and> s1 \<le> s2 \<longrightarrow>
        (\<exists>f1 f2. staleness ''polynomial'' (Some s1) = Inr (PyFloat f1)
               \<and> staleness ''polynomial'' (Some s2) = Inr (PyFloat f2) \<and> f2 \<le> f1)
        \<and> (\<exists>f1 f2. staleness ''hinge'' (Some s1) = Inr (PyFloat f1)
               \<and> staleness ''hinge'' (Some s2) = Inr (PyFloat f2) \<and> f2 \<le> f1))"
proof -
  have c: "staleness ''constant'' (Some s) = Inr (PyFloat 1)"
    by (simp add: staleness_def)
  have p0: "staleness ''polynomial'' (Some 0) = Inr (PyFloat 1)"
    using polynomial_value [of 0] by simp
  have ps: "\<exists>f1 f2. staleness ''polynomial'' (Some s1) = Inr (PyFloat f1)
               \<and> staleness ''polynomial'' (Some s2) = Inr (PyFloat f2) \<and> f2 < f1"
    if "0 \<le> s1" "s1 < s2"
    using that polynomial_value [of s1] polynomial_value [of s2] polynomial_strict [of s1 s2]
    by simp
  have pm: "\<exists>f1 f2. staleness ''polynomial'' (Some s1) = Inr (PyFloat f1)
               \<and> staleness ''polynomial'' (Some s2) = Inr (PyFloat f2) \<and> f2 \<le> f1"
    if "0 \<le> s1" "s1 \<le> s2"
  proof (cases "s1 = s2")
    case True
    then show ?thesis using that polynomial_value [of s1] by simp
  next
    case False
    then have "s1 < s2" using that by simp
    from ps [OF that(1) this] show ?thesis by (metis less_imp_le)
  qed
  have hm: "\<exists>f1 f2. staleness ''hinge'' (Some s1) = Inr (PyFloat f1)
               \<and> staleness ''hinge'' (Some s2) = Inr (PyFloat f2) \<and> f2 \<le> f1"
    if "s1 \<le> s2"
    using hinge_mono [OF that] by (simp only: hinge_value) blast
  show ?thesis
    using c p0 ps pm hm polynomial_value [of s] hinge_value [of s] by simp
qed

theorem staleness_laws_witness:
  "staleness ''constant'' (Some 3) = Inr (PyFloat 1)
   \<and> staleness ''polynomial'' (Some 3) = Inr (PyFloat (1 / 2))
   \<and> staleness ''polynomial'' (Some 0) = Inr (PyFloat 1)
   \<and> staleness ''hinge'' (Some 3) = Inr (PyFloat 1)
   \<and> staleness ''hinge'' (Some 5) = Inr (PyFloat (1 / 11))"
proof -
  have h: "(4::real) powr (- (1 / 2)) = 1 / 2"
    by (simp add: powr_minus powr_half_sqrt inverse_eq_divide)
  show ?thesis
    using staleness_laws [of 3 0 3] staleness_laws [of 5 3 5] h by simp
qed

section \<open>Sample-weighted averaging\<close>

lemma client_update_names:
  "map fst ws = map fst (drop i bl) \<Longrightarrow>
   client_update bl i ws = Inr (map2 (\<lambda>nw b. (fst nw, snd nw - snd b)) ws (drop i bl))"
proof (induction ws arbitrary: i)
  case Nil
  then show ?case by simp
next
  case (Cons a ws)
  obtain name w where a: "a = (name, w)" by (cases a)
  from Cons.prems have ne: "drop i bl \<noteq> []" by auto
  then have i: "i < length bl" by simp
  then have d: "drop i bl = bl ! i # drop (Suc i) bl"
    by (simp add: Cons_nth_drop_Suc)
  from Cons.prems d a have n: "fst (bl ! i) = name" and r: "map fst ws = map fst (drop (Suc i) bl)"
    by auto
  from Cons.IH [OF r] i n a show ?case
    by (auto simp: d split: prod.splits)
qed

lemma extract_client_updates_names:
  "\<forall>r\<in>set reports. map fst (weights r) = map fst model \<Longrightarrow>
   extract_client_updates model reports =
     Inr (map (\<lambda>r. map2 (\<lambda>nw b. (fst nw, snd nw - snd b)) (weights r) model) reports)"
  by (induction reports) (simp_all add: client_update_names [where i = 0, simplified])

lemma add_weighted_nth:
  "total_samples \<noteq> 0 \<Longrightarrow> j + length ds \<le> length avg \<Longrightarrow>
   \<exists>avg'. add_weighted avg n total_samples j ds = Inr avg' \<and> length avg' = length avg \<and>
     (\<forall>k<length avg. avg' ! k =
        (if j \<le> k \<and> k < j + length ds
         then avg ! k + (real_of_int n / real_of_int total_samples) *\<^sub>R snd (ds ! (k - j))
         else avg ! k))"
proof (induction ds arbitrary: avg j)
  case Nil
  then show ?case by simp
next
  case (Cons d ds)
  obtain name delta where d: "d = (name, delta)" by (cases d)
  let ?avg = "avg[j := avg ! j + (real_of_int n / real_of_int total_samples) *\<^sub>R delta]"
  from Cons.prems have j: "j < length avg" and l: "Suc j + length ds \<le> length ?avg" by auto
  from Cons.IH [OF Cons.prems(1) l] obtain avg' where
    r: "add_weighted ?avg n total_samples (Suc j) ds = Inr avg'" and
    len: "length avg' = length avg" and
    nth: "\<forall>k<length avg. avg' ! k =
        (if Suc j \<le> k \<and> k < Suc j + length ds
         then ?avg ! k + (real_of_int n / real_of_int total_samples) *\<^sub>R snd (ds ! (k - Suc j))
         else ?avg ! k)"
    by auto
  have "avg' ! k =
        (if j \<le> k \<and> k < j + length (d # ds)
         then avg ! k + (real_of_int n / real_of_int total_samples) *\<^sub>R snd ((d # ds) ! (k - j))
         else avg ! k)" if k: "k < length avg" for k
  proof (cases "k = j")
    case True
    with nth k j d show ?thesis by simp
  next
    case False
    with nth k j d show ?thesis by (auto simp: nth_Cons' Suc_diff_Suc not_less_eq)
  qed
  with r len j d Cons.prems(1) show ?case by simp
qed

lemma weighted_sum_nth:
  "total_samples \<noteq> 0 \<Longrightarrow> \<forall>u\<in>set us. length u = length avg \<Longrightarrow>
   i + length us \<le> length reports \<Longrightarrow>
   \<exists>avg'. weighted_sum avg reports total_samples i us = Inr avg' \<and> length avg' = length avg \<and>
     (\<forall>k<length avg. avg' ! k = avg ! k +
        (\<Sum>m<length us. (real_of_int (num_samples (reports ! (i + m))) / real_of_int total_samples)
            *\<^sub>R snd (us ! m ! k)))"
proof (induction us arbitrary: avg i)
  case Nil
  then show ?case by simp
next
  case (Cons u us)
  from Cons.prems have i: "i < length reports" and lu: "0 + length u \<le> length avg"
    and lu': "length u = length avg" by auto
  from add_weighted_nth [OF Cons.prems(1) lu, of "num_samples (reports ! i)"]
  obtain avg1 where
    a: "add_weighted avg (num_samples (reports ! i)) total_samples 0 u = Inr avg1" and
    len1: "length avg1 = length avg" and
    nth1: "\<forall>k<length avg. avg1 ! k = avg ! k +
       (real_of_int (num_samples (reports ! i)) / real_of_int total_samples) *\<^sub>R snd (u ! k)"
    using lu' by auto
  from Cons.prems len1 have p2: "\<forall>u\<in>set us. length u = length avg1"
    and p3: "Suc i + length us \<le> length reports" by auto
  from Cons.IH [OF Cons.prems(1) p2 p3] obtain avg' where
    r: "weighted_sum avg1 reports total_samples (Suc i) us = Inr avg'" and
    len: "length avg' = length avg1" and
    nth: "\<forall>k<length avg1. avg' ! k = avg1 ! k +
        (\<Sum>m<length us. (real_of_int (num_samples (reports ! (Suc i + m))) / real_of_int total_samples)
            *\<^sub>R snd (us ! m ! k))"
    by auto
  have "avg' ! k = avg ! k +
        (\<Sum>m<length (u # us). (real_of_int (num_samples (reports ! (i + m))) / real_of_int total_samples)
            *\<^sub>R snd ((u # us) ! m ! k))" if k: "k < length avg" for k
    using nth nth1 k len1 by (simp add: sum.lessThan_Suc_shift add.assoc del: sum.lessThan_Suc)
  with r len len1 a i show ?case by simp
qed

lemma load_updated_nth:
  "i + length ws \<le> length avg \<Longrightarrow>
   load_updated avg i ws =
     Inr (map (\<lambda>k. (fst (ws ! k), snd (ws ! k) + avg ! (i + k))) [0..<length ws])"
proof (induction ws arbitrary: i)
  case Nil
  then show ?case by simp
next
  case (Cons a ws)
  obtain name w where a: "a = (name, w)" by (cases a)
  from Cons.prems have "Suc i + length ws \<le> length avg" by simp
  from Cons.IH [OF this] Cons.prems a show ?case
    by (simp add: map_upt_Suc del: upt_Suc)
qed

lemma load_blended_nth:
  "i + length ws \<le> length nw \<Longrightarrow>
   load_blended alpha_t nw i ws =
     Inr (map (\<lambda>k. (fst (ws ! k), (1 - alpha_t) *\<^sub>R snd (ws ! k) + alpha_t *\<^sub>R (nw ! (i + k))))
            [0..<length ws])"
proof (induction ws arbitrary: i)
  case Nil
  then show ?case by simp
next
  case (Cons a ws)
  obtain name w where a: "a = (name, w)" by (cases a)
  from Cons.prems have "Suc i + length ws \<le> length nw" by simp
  from Cons.IH [OF this] Cons.prems a show ?case
    by (simp add: map_upt_Suc del: upt_Suc)
qed


lemma names_length:
  "map fst (ws :: ('a::real_vector) weights) = map fst (model :: 'a weights) \<Longrightarrow> length ws = length model"
  by (metis length_map)

lemma weighted_sum_from_zero:
  assumes "total_samples \<noteq> 0" and "\<forall>u\<in>set us. length u = n" and "length us = length reports"
  shows "\<exists>avg. weighted_sum (replicate n 0) reports total_samples 0 us = Inr avg \<and>
           length avg = n \<and>
           (\<forall>k<n. avg ! k =
              (\<Sum>m<length reports.
                 (real_of_int (num_samples (reports ! m)) / real_of_int total_samples)
                   *\<^sub>R snd (us ! m ! k)))"
proof -
  have a: "\<forall>u\<in>set us. length u = length (replicate n (0::'a))"
    using assms(2) by simp
  have b: "0 + length us \<le> length reports" using assms(3) by simp
  from weighted_sum_nth [OF assms(1) a b] assms(3) show ?thesis
    by simp
qed

lemma map_const_replicate: "map (\<lambda>_. c) xs = replicate (length xs) c"
  by (induction xs) simp_all

text \<open>
  Claim C1. For a non-empty batch whose reports carry the tensor names of the baseline
  in the baseline's order, and whose sample counts sum to a positive number,
  \<^verbatim>\<open>federated_averaging\<close> returns, under every name, the baseline plus the sum over the
  reports of (reported weight minus baseline) scaled by the report's share of the
  samples. The scenario of the claim (samples 10, 20, 30, deltas 1, 2, 3 against
  baseline 0, aggregate 7/3) is the instance \<open>federated_averaging_scenario\<close>.
\<close>

theorem federated_averaging_formula:
  assumes "reports \<noteq> []"
    and "\<forall>r\<in>set reports. map fst (weights r) = map fst model"
    and "0 < sum_list (map num_samples reports)"
  shows "federated_averaging model reports =
     Inr (map (\<lambda>j. (fst (model ! j),
                   snd (model ! j) +
                   (\<Sum>i<length reports.
                      (real_of_int (num_samples (reports ! i))
                         / real_of_int (sum_list (map num_samples reports)))
                      *\<^sub>R (snd (weights (reports ! i) ! j) - snd (model ! j)))))
            [0..<length model])"
proof -
  define total where "total = sum_list (map num_samples reports)"
  define us where
    "us = map (\<lambda>r. map2 (\<lambda>nw b. (fst nw, snd nw - snd b)) (weights r) model) reports"
  have len: "length (weights r) = length model" if "r \<in> set reports" for r
    using assms(2) that names_length by blast
  have ex: "extract_client_updates model reports = Inr us"
    unfolding us_def using assms(2) by (rule extract_client_updates_names)
  obtain u0 ur where us: "us = u0 # ur"
    using assms(1) by (cases us) (auto simp: us_def)
  have lus: "\<forall>u\<in>set us. length u = length model"
    using len by (auto simp: us_def)
  then have lu0: "length u0 = length model" using us by simp
  have t0: "total \<noteq> 0" using assms(3) by (simp add: total_def)
  have "length us = length reports" by (simp add: us_def)
  from weighted_sum_from_zero [OF t0 lus this] obtain avg where
    ws: "weighted_sum (replicate (length model) 0) reports total 0 us = Inr avg" and
    la: "length avg = length model" and
    nth: "\<forall>k<length model. avg ! k =
        (\<Sum>m<length reports. (real_of_int (num_samples (reports ! m)) / real_of_int total)
            *\<^sub>R snd (us ! m ! k))"
    by blast
  have el: "snd (us ! m ! k) = snd (weights (reports ! m) ! k) - snd (model ! k)"
    if "m < length reports" "k < length model" for m k
    using that len [of "reports ! m"] by (simp add: us_def)
  have val: "avg ! k = (\<Sum>i<length reports.
                      (real_of_int (num_samples (reports ! i)) / real_of_int total)
                      *\<^sub>R (snd (weights (reports ! i) ! k) - snd (model ! k)))"
    if k: "k < length model" for k
  proof -
    have "avg ! k = (\<Sum>m<length reports. (real_of_int (num_samples (reports ! m)) / real_of_int total)
            *\<^sub>R snd (us ! m ! k))"
      using nth k by blast
    also have "\<dots> = (\<Sum>i<length reports.
                      (real_of_int (num_samples (reports ! i)) / real_of_int total)
                      *\<^sub>R (snd (weights (reports ! i) ! k) - snd (model ! k)))"
      by (rule sum.cong) (simp_all add: el k)
    finally show ?thesis .
  qed
  have "load_updated avg 0 model =
     Inr (map (\<lambda>k. (fst (model ! k), snd (model ! k) + avg ! (0 + k))) [0..<length model])"
    by (rule load_updated_nth) (simp add: la)
  also have "map (\<lambda>k. (fst (model ! k), snd (model ! k) + avg ! (0 + k))) [0..<length model] =
     map (\<lambda>j. (fst (model ! j),
                   snd (model ! j) +
                   (\<Sum>i<length reports.
                      (real_of_int (num_samples (reports ! i)) / real_of_int total)
                      *\<^sub>R (snd (weights (reports ! i) ! j) - snd (model ! j)))))
            [0..<length model]"
    by (rule map_cong) (simp_all add: val)
  finally have lu: "load_updated avg 0 model = Inr (map (\<lambda>j. (fst (model ! j),
                   snd (model ! j) +
                   (\<Sum>i<length reports.
                      (real_of_int (num_samples (reports ! i)) / real_of_int total)
                      *\<^sub>R (snd (weights (reports ! i) ! j) - snd (model ! j)))))
            [0..<length model])" .
  have "federated_averaging model reports = load_updated avg 0 model"
    unfolding federated_averaging_def ex total_def [symmetric]
    using ws us lu0 by (simp add: map_const_replicate)
  with lu show ?thesis unfolding total_def by simp
qed

theorem federated_averaging_scenario:
  "federated_averaging [(''w'', 0 :: real)]
     [\<lparr>client_id = 0, weights = [(''w'', 1)], num_samples = 10, accuracy = 0\<rparr>,
      \<lparr>client_id = 1, weights = [(''w'', 2)], num_samples = 20, accuracy = 0\<rparr>,
      \<lparr>client_id = 2, weights = [(''w'', 3)], num_samples = 30, accuracy = 0\<rparr>]
   = Inr [(''w'', 7 / 3)]"
  using federated_averaging_formula [of
     "[\<lparr>client_id = 0, weights = [(''w'', 1)], num_samples = 10, accuracy = 0\<rparr>,
      \<lparr>client_id = 1, weights = [(''w'', 2)], num_samples = 20, accuracy = 0\<rparr>,
      \<lparr>client_id = 2, weights = [(''w'', 3 :: real)], num_samples = 30, accuracy = 0\<rparr>]"
     "[(''w'', 0 :: real)]"]
  by (simp add: numeral_3_eq_3)

section \<open>Staleness-discounted blending\<close>

lemma staleness_defined:
  assumes "0 \<le> s" and "staleness_func \<in> {''constant'', ''polynomial'', ''hinge''}"
  shows "\<exists>f. staleness staleness_func (Some s) = Inr (PyFloat f) \<and> 0 < f \<and> f \<le> 1"
proof -
  consider "staleness_func = ''constant''" | "staleness_func = ''polynomial''"
    | "staleness_func = ''hinge''"
    using assms(2) by blast
  then show ?thesis
  proof cases
    case 1
    then show ?thesis by (simp add: staleness_def)
  next
    case 2
    have "(s + 1) powr (- (1 / 2)) \<le> 1"
      using assms(1) powr_mono2' [of "- (1 / 2)" 1 "s + 1"] by simp
    with 2 assms(1) show ?thesis
      by (simp add: staleness_def pow_neg_half_def)
  next
    case 3
    show ?thesis
    proof (cases "s \<le> 4")
      case True
      with 3 show ?thesis by (simp add: staleness_def)
    next
      case False
      then have "0 < 1 / (10 * (s - 4) + 1)" and "1 / (10 * (s - 4) + 1) \<le> 1"
        by (simp_all add: field_simps)
      with 3 False show ?thesis by (simp add: staleness_def truediv_def)
    qed
  qed
qed

lemma federated_async_blend:
  assumes "reports \<noteq> []"
    and "\<forall>r\<in>set reports. length (weights r) = length model"
    and "0 < sum_list (map num_samples reports)"
    and "staleness staleness_func (Some s) = Inr (PyFloat f)"
  shows "federated_async alpha staleness_func model reports (Some s) =
     Inr (map (\<lambda>j. (fst (model ! j),
                   (1 - alpha * f) *\<^sub>R snd (model ! j) +
                   (alpha * f) *\<^sub>R
                     (\<Sum>i<length reports.
                        (real_of_int (num_samples (reports ! i))
                           / real_of_int (sum_list (map num_samples reports)))
                        *\<^sub>R snd (weights (reports ! i) ! j))))
            [0..<length model])"
proof -
  define total where "total = sum_list (map num_samples reports)"
  define ws where "ws = extract_client_weights reports"
  obtain w0 wr where ws: "ws = w0 # wr"
    using assms(1) by (cases ws) (auto simp: ws_def extract_client_weights_def)
  have lws: "\<forall>u\<in>set ws. length u = length model"
    using assms(2) by (auto simp: ws_def extract_client_weights_def)
  then have lw0: "length w0 = length model" using ws by simp
  have t0: "total \<noteq> 0" using assms(3) by (simp add: total_def)
  have "length ws = length reports" by (simp add: ws_def extract_client_weights_def)
  from weighted_sum_from_zero [OF t0 lws this] obtain nw where
    sum: "weighted_sum (replicate (length model) 0) reports total 0 ws = Inr nw" and
    la: "length nw = length model" and
    nth: "\<forall>k<length model. nw ! k =
        (\<Sum>m<length reports. (real_of_int (num_samples (reports ! m)) / real_of_int total)
            *\<^sub>R snd (ws ! m ! k))"
    by blast
  have val: "nw ! k = (\<Sum>i<length reports.
                      (real_of_int (num_samples (reports ! i)) / real_of_int total)
                      *\<^sub>R snd (weights (reports ! i) ! k))"
    if k: "k < length model" for k
  proof -
    have "nw ! k = (\<Sum>m<length reports. (real_of_int (num_samples (reports ! m)) / real_of_int total)
            *\<^sub>R snd (ws ! m ! k))"
      using nth k by blast
    also have "\<dots> = (\<Sum>i<length reports.
                      (real_of_int (num_samples (reports ! i)) / real_of_int total)
                      *\<^sub>R snd (weights (reports ! i) ! k))"
      by (rule sum.cong) (simp_all add: ws_def extract_client_weights_def)
    finally show ?thesis .
  qed
  have "load_blended (alpha * f) nw 0 model =
     Inr (map (\<lambda>k. (fst (model ! k),
                (1 - alpha * f) *\<^sub>R snd (model ! k) + (alpha * f) *\<^sub>R (nw ! (0 + k))))
            [0..<length model])"
    by (rule load_blended_nth) (simp add: la)
  also have "map (\<lambda>k. (fst (model ! k),
                (1 - alpha * f) *\<^sub>R snd (model ! k) + (alpha * f) *\<^sub>R (nw ! (0 + k))))
            [0..<length model] =
     map (\<lambda>j. (fst (model ! j),
                   (1 - alpha * f) *\<^sub>R snd (model ! j) +
                   (alpha * f) *\<^sub>R
                     (\<Sum>i<length reports.
                        (real_of_int (num_samples (reports ! i)) / real_of_int total)
                        *\<^sub>R snd (weights (reports ! i) ! j))))
            [0..<length model]"
    by (rule map_cong) (simp_all add: val)
  finally have lb: "load_blended (alpha * f) nw 0 model =
     Inr (map (\<lambda>j. (fst (model ! j),
                   (1 - alpha * f) *\<^sub>R snd (model ! j) +
                   (alpha * f) *\<^sub>R
                     (\<Sum>i<length reports.
                        (real_of_int (num_samples (reports ! i)) / real_of_int total)
                        *\<^sub>R snd (weights (reports ! i) ! j))))
            [0..<length model])" .
  have "federated_async alpha staleness_func model reports (Some s) = load_blended (alpha * f) nw 0 model"
    unfolding federated_async_def ws_def [symmetric] total_def [symmetric]
    using sum ws lw0 assms(4) by (simp add: map_const_replicate)
  with lb show ?thesis unfolding total_def by simp
qed

text \<open>
  Claim C2. For a non-empty batch with a positive total sample count, whose reports
  have one weight per tensor of the model, and a staleness \<open>s\<close> at which the configured
  staleness function yields the coefficient \<open>f\<close>, \<^verbatim>\<open>federated_async\<close> returns at every
  position \<open>(1 - alpha_t) * baseline + alpha_t * new_weight\<close> with \<open>alpha_t = alpha * f\<close>,
  where \<open>new_weight\<close> is the sample-weighted mean of the reported weights themselves (no
  baseline is subtracted) and \<open>baseline\<close> is the entry of the model handed to the
  aggregation, which \<open>async_pass\<close> below takes from the server state of the moment.
  The coefficient exists, in \<open>(0, 1]\<close>, for each of the three configured names at every
  \<open>s \<ge> 0\<close>.
\<close>

theorem federated_async_formula:
  assumes "reports \<noteq> []"
    and "\<forall>r\<in>set reports. length (weights r) = length model"
    and "0 < sum_list (map num_samples reports)"
  shows "(staleness staleness_func (Some s) = Inr (PyFloat f) \<longrightarrow>
          federated_async alpha staleness_func model reports (Some s) =
            Inr (map (\<lambda>j. (fst (model ! j),
                   (1 - alpha * f) *\<^sub>R snd (model ! j) +
                   (alpha * f) *\<^sub>R
                     (\<Sum>i<length reports.
                        (real_of_int (num_samples (reports ! i))
                           / real_of_int (sum_list (map num_samples reports)))
                        *\<^sub>R snd (weights (reports ! i) ! j))))
              [0..<length model]))
       \<and> (0 \<le> s \<and> staleness_func \<in> {''constant'', ''polynomial'', ''hinge''} \<longrightarrow>
            (\<exists>c. staleness staleness_func (Some s) = Inr (PyFloat c) \<and> 0 < c \<and> c \<le> 1))"
  using federated_async_blend [OF assms] staleness_defined [of s staleness_func] by blast

theorem federated_async_formula_witness:
  "federated_async (1 / 2) ''hinge'' [(''w'', 4 :: real)]
     [\<lparr>client_id = 0, weights = [(''w'', 1)], num_samples = 10, accuracy = 0\<rparr>,
      \<lparr>client_id = 1, weights = [(''w'', 3)], num_samples = 30, accuracy = 0\<rparr>] (Some 5)
   = Inr [(''w'', 173 / 44)]"
proof -
  have h: "staleness ''hinge'' (Some 5) = Inr (PyFloat (1 / 11))"
    by (simp add: staleness_def truediv_def)
  show ?thesis
    using federated_async_formula [of
     "[\<lparr>client_id = 0, weights = [(''w'', 1)], num_samples = 10, accuracy = 0\<rparr>,
      \<lparr>client_id = 1, weights = [(''w'', 3 :: real)], num_samples = 30, accuracy = 0\<rparr>]"
     "[(''w'', 4 :: real)]" "''hinge''" 5 "1 / 11" "1 / 2"]
    by (simp add: h numeral_2_eq_2)
qed

section \<open>Degenerate batches and mismatched names\<close>

lemma add_weighted_zero_total:
  "add_weighted avg n 0 j ds = Inr avg' \<Longrightarrow> ds = [] \<and> avg' = avg"
  by (cases ds) (auto split: if_splits)

lemma weighted_sum_zero_total:
  "weighted_sum avg reports 0 i us = Inr avg' \<Longrightarrow> (\<forall>u\<in>set us. u = []) \<and> avg' = avg"
proof (induction us arbitrary: i)
  case Nil
  then show ?case by simp
next
  case (Cons u us)
  from Cons.prems obtain avg1 where
    a: "add_weighted avg (num_samples (reports ! i)) 0 0 u = Inr avg1" and
    r: "weighted_sum avg1 reports 0 (Suc i) us = Inr avg'"
    by (auto split: if_splits sum.splits)
  from add_weighted_zero_total [OF a] have "u = []" "avg1 = avg" by simp_all
  with Cons.IH [of "Suc i"] r show ?case by simp
qed

lemma load_updated_empty: "model \<noteq> [] \<Longrightarrow> load_updated [] i model = Inl IndexError"
  by (cases model) auto

lemma load_blended_empty: "model \<noteq> [] \<Longrightarrow> load_blended a [] i model = Inl IndexError"
  by (cases model) auto

lemma federated_averaging_empty: "federated_averaging model [] = Inl IndexError"
  by (simp add: federated_averaging_def)

lemma federated_async_empty: "federated_async alpha sf model [] s = Inl IndexError"
  by (simp add: federated_async_def extract_client_weights_def)

lemma client_update_length:
  "client_update bl i ws = Inr u \<Longrightarrow> length u = length ws"
  by (induction ws arbitrary: i u) (auto split: if_splits prod.splits sum.splits)

lemma extract_client_updates_empty:
  "extract_client_updates bl reports = Inr us \<Longrightarrow> \<forall>u\<in>set us. u = [] \<Longrightarrow>
   \<forall>r\<in>set reports. weights r = []"
proof (induction reports arbitrary: us)
  case Nil
  then show ?case by simp
next
  case (Cons r rs)
  from Cons.prems(1) obtain u us' where
    u: "client_update bl 0 (weights r) = Inr u" and
    r: "extract_client_updates bl rs = Inr us'" and e: "us = u # us'"
    by (auto split: sum.splits)
  from client_update_length [OF u] Cons.prems(2) e have "weights r = []" by simp
  with Cons.IH [OF r] Cons.prems(2) e show ?case by simp
qed

lemma federated_averaging_zero_total:
  assumes "sum_list (map num_samples reports) = 0"
    and "model \<noteq> [] \<or> (\<exists>r\<in>set reports. weights r \<noteq> [])"
  shows "\<exists>e. federated_averaging model reports = Inl e"
proof (cases "federated_averaging model reports")
  case (Inl e)
  then show ?thesis by blast
next
  case (Inr res)
  then obtain us u0 ur avg where
    ex: "extract_client_updates model reports = Inr us" and
    "us = u0 # ur" and
    w: "weighted_sum (map (\<lambda>_. 0) u0) reports 0 0 us = Inr avg" and
    l: "load_updated avg 0 model = Inr res"
    using assms(1)
    by (auto simp: federated_averaging_def Let_def simp del: weighted_sum.simps
        split: sum.splits list.splits)
  from weighted_sum_zero_total [OF w] \<open>us = u0 # ur\<close>
  have "avg = []" and em: "\<forall>u\<in>set us. u = []" by simp_all
  from extract_client_updates_empty [OF ex em] assms(2) have "model \<noteq> []" by blast
  with l load_updated_empty [of model 0] \<open>avg = []\<close> show ?thesis by simp
qed

lemma federated_async_zero_total:
  assumes "sum_list (map num_samples reports) = 0"
    and "model \<noteq> [] \<or> (\<exists>r\<in>set reports. weights r \<noteq> [])"
  shows "\<exists>e. federated_async alpha sf model reports s = Inl e"
proof (cases "federated_async alpha sf model reports s")
  case (Inl e)
  then show ?thesis by blast
next
  case (Inr res)
  then obtain us u0 ur nw a where
    ex: "extract_client_weights reports = us" and
    "us = u0 # ur" and
    w: "weighted_sum (map (\<lambda>_. 0) u0) reports 0 0 us = Inr nw" and
    l: "load_blended a nw 0 model = Inr res"
    using assms(1)
    by (auto simp: federated_async_def Let_def simp del: weighted_sum.simps
        split: sum.splits list.splits pyval.splits)
  from weighted_sum_zero_total [OF w] \<open>us = u0 # ur\<close>
  have "nw = []" and em: "\<forall>u\<in>set us. u = []" by simp_all
  from em ex have "\<forall>r\<in>set reports. weights r = []"
    by (auto simp: extract_client_weights_def)
  with assms(2) have "model \<noteq> []" by blast
  with l load_blended_empty [of model a 0] \<open>nw = []\<close> show ?thesis by simp
qed

text \<open>
  Claim C7, as amended. Both strategies raise on an empty batch (\<^verbatim>\<open>IndexError\<close>, from
  the read of the first element), and both raise on a batch whose sample counts sum to
  zero provided the global model or some report has at least one tensor. With a model of
  no tensors and reports of no tensors the loops never divide and the empty weight list
  is returned: \<open>zero_total_on_empty_model_counterexample\<close>.
\<close>

theorem aggregation_rejects_degenerate_batches:
  "(reports = [] \<longrightarrow>
       federated_averaging model reports = Inl IndexError
     \<and> federated_async alpha staleness_func model reports (Some s) = Inl IndexError)
 \<and> (sum_list (map num_samples reports) = 0 \<and>
    (model \<noteq> [] \<or> (\<exists>r\<in>set reports. weights r \<noteq> [])) \<longrightarrow>
       (\<exists>e. federated_averaging model reports = Inl e)
     \<and> (\<exists>e. federated_async alpha staleness_func model reports (Some s) = Inl e))"
  using federated_averaging_empty federated_async_empty
    federated_averaging_zero_total [of reports model]
    federated_async_zero_total [of reports model alpha staleness_func "Some s"]
  by blast

theorem aggregation_rejects_degenerate_batches_witness:
  "federated_averaging [(''w'', 0 :: real)] [] = Inl IndexError
   \<and> federated_async 1 ''constant'' [(''w'', 0 :: real)] [] (Some 0) = Inl IndexError
   \<and> federated_averaging [(''w'', 0 :: real)]
        [\<lparr>client_id = 0, weights = [(''w'', 1)], num_samples = 0, accuracy = 0\<rparr>]
      = Inl ZeroDivisionError
   \<and> federated_async 1 ''constant'' [(''w'', 0 :: real)]
        [\<lparr>client_id = 0, weights = [(''w'', 1)], num_samples = 0, accuracy = 0\<rparr>] (Some 0)
      = Inl ZeroDivisionError"
  using aggregation_rejects_degenerate_batches [of "[]" "[(''w'', 0 :: real)]" 1 "''constant''" 0]
    aggregation_rejects_degenerate_batches [of
      "[\<lparr>client_id = 0, weights = [(''w'', 1 :: real)], num_samples = 0, accuracy = 0\<rparr>]"
      "[(''w'', 0 :: real)]" 1 "''constant''" 0]
  by (simp add: federated_averaging_def federated_async_def extract_client_weights_def)

theorem zero_total_on_empty_model_counterexample:
  "federated_averaging ([] :: real weights)
     [\<lparr>client_id = 0, weights = [], num_samples = 0, accuracy = 0\<rparr>] = Inr []
   \<and> federated_async 1 ''constant'' ([] :: real weights)
     [\<lparr>client_id = 0, weights = [], num_samples = 0, accuracy = 0\<rparr>] (Some 0) = Inr []"
  by (simp add: federated_averaging_def federated_async_def extract_client_weights_def
      staleness_def)

text \<open>
  Claim C8. \<^verbatim>\<open>federated_averaging\<close> asserts the names position by position, through
  \<^verbatim>\<open>extract_client_updates\<close>; \<^verbatim>\<open>federated_async\<close> reads the reports through
  \<^verbatim>\<open>extract_client_weights\<close>, which compares no name. At a report whose only tensor is
  named \<^verbatim>\<open>fc.bias\<close> against a model whose only tensor is \<^verbatim>\<open>fc.weight\<close>, the async
  strategy returns a result that files the report's value under \<^verbatim>\<open>fc.weight\<close>, where the
  sync strategy raises \<^verbatim>\<open>AssertionError\<close>.
\<close>

theorem federated_async_ignores_names:
  "federated_async 1 ''constant'' [(''fc.weight'', 0 :: real)]
     [\<lparr>client_id = 0, weights = [(''fc.bias'', 1)], num_samples = 1, accuracy = 0\<rparr>] (Some 0)
     = Inr [(''fc.weight'', 1)]
   \<and> federated_averaging [(''fc.weight'', 0 :: real)]
     [\<lparr>client_id = 0, weights = [(''fc.bias'', 1)], num_samples = 1, accuracy = 0\<rparr>]
     = Inl AssertionError"
  by (simp add: federated_averaging_def federated_async_def extract_client_weights_def
      staleness_def)

section \<open>The priority queue keeps its order\<close>

lemma entry_lt_Inr: "entry_lt a b = Inr lt \<Longrightarrow> fst a \<noteq> fst b \<and> lt = (fst a < fst b)"
  by (auto simp: entry_lt_def split: if_splits)

lemma mset_update_twice:
  "i < length xs \<Longrightarrow> j < length xs \<Longrightarrow> i \<noteq> j \<Longrightarrow>
   mset (xs[i := xs ! j, j := x]) = mset (xs[i := x])"
  by (simp add: mset_update nth_list_update)

lemma siftdown_loop_mset:
  "pos < length heap \<Longrightarrow> siftdown_loop heap x sp pos = Inr h' \<Longrightarrow>
   mset h' = mset (heap[pos := x]) \<and> length h' = length heap"
proof (induction heap x sp pos rule: siftdown_loop.induct)
  case (1 heap x sp pos)
  show ?case
  proof (cases "sp < pos")
    case False
    with "1.prems" show ?thesis by (subst (asm) siftdown_loop.simps) auto
  next
    case True
    let ?pp = "(pos - 1) div 2"
    from True have pp: "?pp < pos" by auto
    from "1.prems"(2) True obtain lt where lt: "entry_lt x (heap ! ?pp) = Inr lt"
      by (subst (asm) siftdown_loop.simps) (auto split: sum.splits)
    show ?thesis
    proof (cases lt)
      case False
      with "1.prems" True lt show ?thesis by (subst (asm) siftdown_loop.simps) auto
    next
      case T: True
      with "1.prems"(2) True lt have
        r: "siftdown_loop (heap[pos := heap ! ?pp]) x sp ?pp = Inr h'"
        by (subst (asm) siftdown_loop.simps) auto
      have "?pp < length (heap[pos := heap ! ?pp])" using pp "1.prems"(1) by simp
      from "1.IH" [OF True lt T this r]
      have "mset h' = mset (heap[pos := heap ! ?pp, ?pp := x])" and "length h' = length heap"
        by simp_all
      moreover have "mset (heap[pos := heap ! ?pp, ?pp := x]) = mset (heap[pos := x])"
        using pp "1.prems"(1) by (intro mset_update_twice) auto
      ultimately show ?thesis by simp
    qed
  qed
qed


lemma siftdown_loop_heap:
  "pos < length heap \<Longrightarrow> heap_but (heap[pos := x]) pos \<Longrightarrow> grand_le heap pos \<Longrightarrow>
   siftdown_loop heap x 0 pos = Inr h' \<Longrightarrow> is_heap h'"
proof (induction heap x "0::nat" pos rule: siftdown_loop.induct)
  case (1 heap x pos)
  show ?case
  proof (cases "0 < pos")
    case False
    with "1.prems"(4) have "h' = heap[pos := x]"
      by (subst (asm) siftdown_loop.simps) auto
    with "1.prems"(2) False show ?thesis by (auto simp: heap_but_def is_heap_def)
  next
    case True
    let ?pp = "(pos - 1) div 2"
    from True have pp: "?pp < pos" by auto
    from "1.prems"(4) True obtain lt where lt: "entry_lt x (heap ! ?pp) = Inr lt"
      by (subst (asm) siftdown_loop.simps) (auto split: sum.splits)
    from entry_lt_Inr [OF lt] have ne: "fst x \<noteq> fst (heap ! ?pp)" and
      lt_eq: "lt = (fst x < fst (heap ! ?pp))" by simp_all
    show ?thesis
    proof (cases lt)
      case False
      with "1.prems"(4) True lt have h': "h' = heap[pos := x]"
        by (subst (asm) siftdown_loop.simps) auto
      from False lt_eq ne have le: "fst (heap ! ?pp) \<le> fst x" by simp
      show ?thesis unfolding is_heap_def
      proof (intro allI impI)
        fix i assume i: "i < length h'" "0 < i"
        show "parent_le h' i"
        proof (cases "i = pos")
          case True
          with le pp "1.prems"(1) show ?thesis by (simp add: parent_le_def h')
        next
          case False
          with "1.prems"(2) i show ?thesis by (simp add: heap_but_def h')
        qed
      qed
    next
      case T: True
      with "1.prems"(4) True lt have
        r: "siftdown_loop (heap[pos := heap ! ?pp]) x 0 ?pp = Inr h'"
        by (subst (asm) siftdown_loop.simps) auto
      from T lt_eq have xlt: "fst x < fst (heap ! ?pp)" by simp
      let ?h1 = "heap[pos := heap ! ?pp]"
      have a: "?pp < length ?h1" using pp "1.prems"(1) by simp
      have b: "heap_but (?h1[?pp := x]) ?pp" unfolding heap_but_def
      proof (intro allI impI)
        fix i assume i: "i < length (?h1[?pp := x])" "0 < i \<and> i \<noteq> ?pp"
        then have il: "i < length heap" by simp
        let ?pi = "(i - 1) div 2"
        have pil: "?pi < i" using i by auto
        consider (pos) "i = pos" | (child) "i \<noteq> pos" "?pi = pos"
          | (sib) "i \<noteq> pos" "?pi = ?pp" | (other) "i \<noteq> pos" "?pi \<noteq> pos" "?pi \<noteq> ?pp"
          by blast
        then show "parent_le (?h1[?pp := x]) i"
        proof cases
          case pos
          with xlt pp "1.prems"(1) show ?thesis by (simp add: parent_le_def)
        next
          case child
          from "1.prems"(3) True child i il
          have "fst (heap ! ?pp) \<le> fst (heap ! i)" by (auto simp: grand_le_def)
          with child i il pp "1.prems"(1) show ?thesis by (simp add: parent_le_def)
        next
          case sib
          from "1.prems"(2) sib i il have "parent_le (heap[pos := x]) i"
            by (auto simp: heap_but_def)
          with sib pp have "fst (heap ! ?pp) \<le> fst (heap ! i)"
            by (simp add: parent_le_def)
          with xlt sib i il pp "1.prems"(1) show ?thesis by (simp add: parent_le_def)
        next
          case other
          from "1.prems"(2) other i il have "parent_le (heap[pos := x]) i"
            by (auto simp: heap_but_def)
          with other i show ?thesis by (simp add: parent_le_def)
        qed
      qed
      have c: "grand_le ?h1 ?pp" unfolding grand_le_def
      proof (intro allI impI)
        fix c assume pp0: "0 < ?pp" and cl: "c < length ?h1" and c: "0 < c \<and> (c - 1) div 2 = ?pp"
        let ?g = "(?pp - 1) div 2"
        have g: "?g < ?pp" using pp0 by auto
        from "1.prems"(2) pp0 pp "1.prems"(1) have "parent_le (heap[pos := x]) ?pp"
          by (auto simp: heap_but_def)
        with g pp have gp: "fst (heap ! ?g) \<le> fst (heap ! ?pp)"
          by (simp add: parent_le_def)
        show "fst (?h1 ! ?g) \<le> fst (?h1 ! c)"
        proof (cases "c = pos")
          case True
          with gp g pp "1.prems"(1) show ?thesis by simp
        next
          case False
          from "1.prems"(2) False c cl have "parent_le (heap[pos := x]) c"
            by (auto simp: heap_but_def)
          with False c pp have "fst (heap ! ?pp) \<le> fst (heap ! c)"
            by (simp add: parent_le_def)
          with gp False g pp show ?thesis by simp
        qed
      qed
      from "1.hyps" [OF True lt T a b c r] show ?thesis .
    qed
  qed
qed

lemma siftup_loop_props:
  "pos < length heap \<Longrightarrow> endpos = length heap \<Longrightarrow> hole_ok heap pos \<Longrightarrow> grand_le heap pos \<Longrightarrow>
   siftup_loop heap endpos pos = Inr (h', p') \<Longrightarrow>
   length h' = length heap \<and> p' < length heap \<and> length heap \<le> 2 * p' + 1 \<and>
   hole_ok h' p' \<and> grand_le h' p' \<and> (\<forall>x. mset (h'[p' := x]) = mset (heap[pos := x]))"
proof (induction heap endpos pos rule: siftup_loop.induct)
  case (1 heap endpos pos)
  show ?case
  proof (cases "2 * pos + 1 < endpos")
    case False
    with "1.prems"(5) have "h' = heap" "p' = pos"
      by (subst (asm) siftup_loop.simps; simp)+
    with False "1.prems" show ?thesis by simp
  next
    case True
    let ?l = "2 * pos + 1" and ?r = "2 * pos + 2"
    let ?cmp = "if ?r < endpos then entry_lt (heap ! ?l) (heap ! ?r) else Inr True"
    from "1.prems"(5) True obtain lt where lt: "?cmp = Inr lt"
      by (subst (asm) siftup_loop.simps) (auto split: sum.splits)
    define c where "c = (if lt then ?l else ?r)"
    let ?h1 = "heap[pos := heap ! c]"
    from "1.prems"(5) True lt have r: "siftup_loop ?h1 endpos c = Inr (h', p')"
      by (subst (asm) siftup_loop.simps) (simp add: c_def Let_def)
    have cl: "c < length heap"
      using True lt "1.prems"(2) by (auto simp: c_def split: if_splits)
    have cpos: "pos < c" "0 < c" "(c - 1) div 2 = pos" by (auto simp: c_def)
    have small: "fst (heap ! c) \<le> fst (heap ! i)"
      if "i < length heap" "0 < i" "(i - 1) div 2 = pos" for i
    proof -
      from that have "i = ?l \<or> i = ?r" by auto
      then show ?thesis
      proof
        assume i: "i = ?l"
        show ?thesis
        proof (cases "?r < endpos")
          case False
          with lt have "c = ?l" by (simp add: c_def)
          with i show ?thesis by simp
        next
          case R: True
          with lt have "entry_lt (heap ! ?l) (heap ! ?r) = Inr lt" by simp
          from entry_lt_Inr [OF this] i show ?thesis by (auto simp: c_def)
        qed
      next
        assume i: "i = ?r"
        with that "1.prems"(2) have R: "?r < endpos" by simp
        with lt have "entry_lt (heap ! ?l) (heap ! ?r) = Inr lt" by simp
        from entry_lt_Inr [OF this] i show ?thesis by (auto simp: c_def)
      qed
    qed
    have a: "c < length ?h1" using cl by simp
    have e: "endpos = length ?h1" using "1.prems"(2) by simp
    have b: "hole_ok ?h1 c" unfolding hole_ok_def
    proof (intro allI impI)
      fix i assume il: "i < length ?h1" and i: "0 < i \<and> i \<noteq> c \<and> (i - 1) div 2 \<noteq> c"
      let ?pi = "(i - 1) div 2"
      have pil: "?pi < i" using i by auto
      consider (pos) "i = pos" | (sib) "i \<noteq> pos" "?pi = pos" | (other) "i \<noteq> pos" "?pi \<noteq> pos"
        by blast
      then show "parent_le ?h1 i"
      proof cases
        case pos
        with i "1.prems"(4) cl cpos have "fst (heap ! ?pi) \<le> fst (heap ! c)"
          by (auto simp: grand_le_def)
        with pos pil "1.prems"(1) show ?thesis by (simp add: parent_le_def)
      next
        case sib
        with small [of i] il i have "fst (heap ! c) \<le> fst (heap ! i)" by simp
        with sib "1.prems"(1) show ?thesis by (simp add: parent_le_def)
      next
        case other
        with "1.prems"(3) il i have "parent_le heap i" by (auto simp: hole_ok_def)
        with other show ?thesis by (simp add: parent_le_def)
      qed
    qed
    have g: "grand_le ?h1 c" unfolding grand_le_def
    proof (intro allI impI)
      fix d assume dl: "d < length ?h1" and d: "0 < d \<and> (d - 1) div 2 = c"
      then have dne: "d \<noteq> pos" "(d - 1) div 2 \<noteq> pos" using cpos by auto
      with "1.prems"(3) dl d have "parent_le heap d" by (auto simp: hole_ok_def)
      with d dne cpos "1.prems"(1) show "fst (?h1 ! ((c - 1) div 2)) \<le> fst (?h1 ! d)"
        by (simp add: parent_le_def)
    qed
    from "1.IH" [OF True lt c_def a e b g r]
    have IH: "length h' = length ?h1 \<and> p' < length ?h1 \<and> length ?h1 \<le> 2 * p' + 1 \<and>
       hole_ok h' p' \<and> grand_le h' p' \<and> (\<forall>x. mset (h'[p' := x]) = mset (?h1[c := x]))"
      by simp
    have "mset (?h1[c := x]) = mset (heap[pos := x])" for x
      using cl cpos "1.prems"(1) by (intro mset_update_twice) auto
    with IH show ?thesis by simp
  qed
qed

lemma siftup_root:
  assumes "heap \<noteq> []" and "hole_ok heap 0" and "siftup heap 0 = Inr h'"
  shows "is_heap h' \<and> mset h' = mset heap"
proof -
  from assms(3) obtain h1 p1 where
    l: "siftup_loop heap (length heap) 0 = Inr (h1, p1)" and
    d: "siftdown (h1[p1 := heap ! 0]) 0 p1 = Inr h'"
    by (auto simp: siftup_def Let_def split: sum.splits prod.splits)
  have pos: "0 < length heap" using assms(1) by simp
  have g0: "grand_le heap 0" by (simp add: grand_le_def)
  from siftup_loop_props [OF pos refl assms(2) g0 l] have
    len: "length h1 = length heap" and p1: "p1 < length heap" and
    leaf: "length heap \<le> 2 * p1 + 1" and ho: "hole_ok h1 p1" and
    ms: "\<forall>x. mset (h1[p1 := x]) = mset (heap[0 := x])"
    by simp_all
  let ?H = "h1[p1 := heap ! 0]"
  from d p1 len have d': "siftdown_loop ?H (heap ! 0) 0 p1 = Inr h'"
    by (simp add: siftdown_def)
  have pl: "p1 < length ?H" using p1 len by simp
  have hb: "heap_but (?H[p1 := heap ! 0]) p1" unfolding heap_but_def
  proof (intro allI impI)
    fix i assume il: "i < length (?H[p1 := heap ! 0])" and i: "0 < i \<and> i \<noteq> p1"
    have "(i - 1) div 2 \<noteq> p1" using il i leaf len by auto
    with ho il i have "parent_le h1 i" by (auto simp: hole_ok_def)
    with i \<open>(i - 1) div 2 \<noteq> p1\<close> show "parent_le (?H[p1 := heap ! 0]) i"
      by (simp add: parent_le_def)
  qed
  have gl: "grand_le ?H p1" unfolding grand_le_def
  proof (intro allI impI)
    fix c assume "0 < p1" "c < length ?H" "0 < c \<and> (c - 1) div 2 = p1"
    with leaf len have False by auto
    then show "fst (?H ! ((p1 - 1) div 2)) \<le> fst (?H ! c)" ..
  qed
  from siftdown_loop_heap [OF pl hb gl d'] have "is_heap h'" .
  moreover from siftdown_loop_mset [OF pl d'] ms pos have "mset h' = mset heap"
    by simp
  ultimately show ?thesis by simp
qed

lemma heappush_heap:
  assumes "is_heap heap" and "heappush heap x = Inr h'"
  shows "is_heap h' \<and> mset h' = add_mset x (mset heap)"
proof -
  let ?H = "heap @ [x]"
  from assms(2) have d: "siftdown_loop ?H x 0 (length heap) = Inr h'"
    by (simp add: heappush_def siftdown_def)
  have pl: "length heap < length ?H" by simp
  have hb: "heap_but (?H[length heap := x]) (length heap)" unfolding heap_but_def
  proof (intro allI impI)
    fix i assume "i < length (?H[length heap := x])" "0 < i \<and> i \<noteq> length heap"
    then have i: "i < length heap" "0 < i" by simp_all
    then have "(i - 1) div 2 < length heap" by auto
    with assms(1) i show "parent_le (?H[length heap := x]) i"
      by (simp add: is_heap_def parent_le_def nth_append)
  qed
  have gl: "grand_le ?H (length heap)" unfolding grand_le_def
  proof (intro allI impI)
    fix c assume "0 < length heap" "c < length ?H" "0 < c \<and> (c - 1) div 2 = length heap"
    then have False by auto
    then show "fst (?H ! ((length heap - 1) div 2)) \<le> fst (?H ! c)" ..
  qed
  from siftdown_loop_heap [OF pl hb gl d] siftdown_loop_mset [OF pl d]
  show ?thesis by simp
qed

lemma heap_root_least:
  "is_heap h \<Longrightarrow> i < length h \<Longrightarrow> fst (h ! 0) \<le> fst (h ! i)"
proof (induction i rule: less_induct)
  case (less i)
  show ?case
  proof (cases "i = 0")
    case True
    then show ?thesis by simp
  next
    case False
    then have p: "(i - 1) div 2 < i" by auto
    with less.prems have "(i - 1) div 2 < length h" by simp
    from less.IH [OF p less.prems(1) this] less.prems False
    show ?thesis by (auto simp: is_heap_def parent_le_def)
  qed
qed

lemma heappop_heap:
  assumes "is_heap heap" and "heappop heap = Inr (e, h')"
  shows "is_heap h' \<and> mset heap = add_mset e (mset h') \<and> (\<forall>y\<in>set heap. fst e \<le> fst y)"
proof -
  from assms(2) have ne: "heap \<noteq> []" by (auto simp: heappop_def split: if_splits)
  define rest where "rest = butlast heap"
  have heap: "rest @ [last heap] = heap" using ne by (simp add: rest_def)
  have lh: "length heap = Suc (length rest)" using ne by (simp add: rest_def)
  have nr: "rest ! i = heap ! i" if "i < length rest" for i
    using that by (simp add: rest_def nth_butlast)
  have least: "fst (heap ! 0) \<le> fst y" if "y \<in> set heap" for y
  proof -
    from that obtain i where "i < length heap" "heap ! i = y"
      by (auto simp: in_set_conv_nth)
    with heap_root_least [OF assms(1), of i] show ?thesis by simp
  qed
  show ?thesis
  proof (cases "rest = []")
    case True
    with assms(2) ne have eh: "e = last heap" "h' = []"
      by (auto simp: heappop_def rest_def Let_def)
    from True heap have hp: "heap = [last heap]" by simp
    then have "heap ! 0 = last heap" by (metis nth_Cons_0)
    with least eh have "\<forall>y\<in>set heap. fst e \<le> fst y" by simp
    moreover have "mset heap = add_mset e (mset h')"
      using eh by (subst hp) simp
    moreover have "is_heap h'" using eh by (simp add: is_heap_def)
    ultimately show ?thesis by simp
  next
    case False
    let ?R = "rest[0 := last heap]"
    from assms(2) ne False have e: "e = rest ! 0" and s: "siftup ?R 0 = Inr h'"
      by (auto simp: heappop_def rest_def Let_def split: sum.splits)
    have r0: "rest ! 0 = heap ! 0" using False by (simp add: nr)
    have ho: "hole_ok ?R 0" unfolding hole_ok_def
    proof (intro allI impI)
      fix i assume il: "i < length ?R" and i: "0 < i \<and> i \<noteq> 0 \<and> (i - 1) div 2 \<noteq> 0"
      then have ir: "i < length rest" by simp
      then have "i < length heap" using lh by simp
      with assms(1) i have pl: "parent_le heap i" by (simp add: is_heap_def)
      have pr: "(i - 1) div 2 < length rest" using ir i by auto
      from pl ir pr i show "parent_le ?R i"
        by (simp add: parent_le_def nr)
    qed
    have "?R \<noteq> []" using False by simp
    from siftup_root [OF this ho s] have h: "is_heap h'" and m: "mset h' = mset ?R" by auto
    have "mset (rest @ [last heap]) = add_mset (rest ! 0) (mset ?R)"
      using False by (simp add: mset_update)
    then have "mset heap = add_mset (rest ! 0) (mset ?R)" by (simp only: heap)
    with h m e r0 least show ?thesis by simp
  qed
qed

section \<open>One pass of the asynchronous loop\<close>

lemma py_max_Max: "xs \<noteq> [] \<Longrightarrow> py_max xs = Inr (Max (set xs))"
  by (cases xs) (simp_all add: Max.set_eq_fold [symmetric])

lemma set_aggregate_time_Inr:
  "clients g \<noteq> [] \<Longrightarrow>
   set_aggregate_time g = Inr (g\<lparr>aggregate_time := download_time g + slowest g\<rparr>)"
  by (simp add: set_aggregate_time_def slowest_def py_max_Max)

lemma set_aggregate_time_Inl:
  "clients g = [] \<Longrightarrow> set_aggregate_time g = Inl ValueError"
  by (simp add: set_aggregate_time_def)

lemma requeue_eq:
  "clients g \<noteq> [] \<Longrightarrow>
   set_aggregate_time (set_download_time g (aggregate_time g)) = Inr (requeued g)"
  by (simp add: set_aggregate_time_def set_download_time_def requeued_def slowest_def py_max_Max)

lemma async_pass_Inr:
  assumes "async_pass cfg env T_old T_async st = Inr st'"
  shows "\<exists>k g q. heappop (queue st) = Inr ((k, g), q) \<and>
           rec_t (srv_records (srv st')) = rec_t (srv_records (srv st)) @ [aggregate_time g] \<and>
           passed st' = passed st @ [(g, aggregate_time g - download_time g)] \<and>
           n_delay (srv st') = n_delay (srv st) \<and>
           n_sample (srv st') = n_sample (srv st) \<and>
           (if aggregate_time g - T_old \<le> T_async
            then clients g \<noteq> [] \<and>
                 heappush q (aggregate_time (requeued g), requeued g) = Inr (queue st')
            else queue st' = q)"
proof -
  from assms obtain item q where pop: "heappop (queue st) = Inr (item, q)"
    by (auto simp: async_pass_def split: sum.splits)
  obtain k g where item: "item = (k, g)" by (cases item)
  show ?thesis
  proof (cases "clients g = []")
    case True
    with assms pop item show ?thesis
      by (auto simp: async_pass_def Let_def append_acc_record_def set_aggregate_time_def
          set_download_time_def split: sum.splits if_splits)
  next
    case False
    with assms pop item show ?thesis
      by (auto simp: async_pass_def Let_def append_acc_record_def requeue_eq
          split: sum.splits if_splits)
  qed
qed

lemma timed_requeued:
  "clients g \<noteq> [] \<Longrightarrow> timed (aggregate_time (requeued g), requeued g)"
  by (simp add: timed_def requeued_def slowest_def)

lemma slowest_nonneg:
  "clients g \<noteq> [] \<Longrightarrow> \<forall>c\<in>set (clients g). 0 \<le> delay c \<Longrightarrow> 0 \<le> slowest g"
proof -
  assume ne: "clients g \<noteq> []" and nn: "\<forall>c\<in>set (clients g). 0 \<le> delay c"
  from ne have "slowest g \<in> set (map delay (clients g))"
    unfolding slowest_def by (intro Max_in) auto
  with nn show ?thesis by auto
qed

lemma mset_add_set: "mset xs = add_mset x (mset ys) \<Longrightarrow> set xs = insert x (set ys)"
  by (metis set_mset_add_mset_insert set_mset_mset)

lemma pass_inv:
  assumes "loop_inv st" and "async_pass cfg env T_old T_async st = Inr st'"
  shows "loop_inv st'"
proof -
  from async_pass_Inr [OF assms(2)] obtain k g q where
    pop: "heappop (queue st) = Inr ((k, g), q)" and
    log: "passed st' = passed st @ [(g, aggregate_time g - download_time g)]" and
    nq: "if aggregate_time g - T_old \<le> T_async
         then clients g \<noteq> [] \<and> heappush q (aggregate_time (requeued g), requeued g) = Inr (queue st')
         else queue st' = q"
    by blast
  from assms(1) have h: "is_heap (queue st)" and t: "\<forall>e\<in>set (queue st). timed e"
    and l: "\<forall>p\<in>set (passed st).
          snd p = aggregate_time (fst p) - download_time (fst p) \<and> snd p = slowest (fst p)"
    unfolding loop_inv_def by blast+
  from heappop_heap [OF h pop] have hq: "is_heap q"
    and m: "mset (queue st) = add_mset (k, g) (mset q)" by simp_all
  from mset_add_set [OF m] have kin: "(k, g) \<in> set (queue st)"
    and sub: "set q \<subseteq> set (queue st)" by auto
  from t kin have tg: "timed (k, g)" by blast
  then have lg: "aggregate_time g - download_time g = slowest g" by (simp add: timed_def)
  have l': "\<forall>p\<in>set (passed st').
          snd p = aggregate_time (fst p) - download_time (fst p) \<and> snd p = slowest (fst p)"
    using l lg by (auto simp: log)
  have "is_heap (queue st') \<and> (\<forall>e\<in>set (queue st'). timed e)"
  proof (cases "aggregate_time g - T_old \<le> T_async")
    case False
    with nq hq t sub show ?thesis by auto
  next
    case True
    with nq have ne: "clients g \<noteq> []"
      and push: "heappush q (aggregate_time (requeued g), requeued g) = Inr (queue st')" by simp_all
    from heappush_heap [OF hq push] have "is_heap (queue st')"
      and "mset (queue st') = add_mset (aggregate_time (requeued g), requeued g) (mset q)"
      by simp_all
    then have "set (queue st') = insert (aggregate_time (requeued g), requeued g) (set q)"
      by (simp add: mset_add_set)
    with t sub timed_requeued [OF ne] \<open>is_heap (queue st')\<close> show ?thesis by auto
  qed
  with l' show ?thesis unfolding loop_inv_def by blast
qed


lemma pass_nonneg:
  assumes "loop_inv st" and "loop_nonneg st" and "async_pass cfg env T_old T_async st = Inr st'"
  shows "loop_nonneg st'"
proof -
  from async_pass_Inr [OF assms(3)] obtain k g q where
    pop: "heappop (queue st) = Inr ((k, g), q)" and
    log: "passed st' = passed st @ [(g, aggregate_time g - download_time g)]" and
    nq: "if aggregate_time g - T_old \<le> T_async
         then clients g \<noteq> [] \<and> heappush q (aggregate_time (requeued g), requeued g) = Inr (queue st')
         else queue st' = q"
    by blast
  from assms(1) have h: "is_heap (queue st)" and t: "\<forall>e\<in>set (queue st). timed e"
    unfolding loop_inv_def by blast+
  from assms(2) have d: "\<forall>e\<in>set (queue st). delays_nonneg e"
    and s: "\<forall>p\<in>set (passed st). 0 \<le> snd p"
    unfolding loop_nonneg_def by blast+
  from heappop_heap [OF h pop] have hq: "is_heap q"
    and m: "mset (queue st) = add_mset (k, g) (mset q)" by simp_all
  from mset_add_set [OF m] have kin: "(k, g) \<in> set (queue st)"
    and sub: "set q \<subseteq> set (queue st)" by auto
  from t kin have tg: "timed (k, g)" by blast
  from d kin have dg: "\<forall>c\<in>set (clients g). 0 \<le> delay c" by (auto simp: delays_nonneg_def)
  from tg have "aggregate_time g - download_time g = slowest g" and "clients g \<noteq> []"
    by (simp_all add: timed_def)
  with slowest_nonneg [OF _ dg] have "0 \<le> aggregate_time g - download_time g" by simp
  with s have s': "\<forall>p\<in>set (passed st'). 0 \<le> snd p" by (auto simp: log)
  have "\<forall>e\<in>set (queue st'). delays_nonneg e"
  proof (cases "aggregate_time g - T_old \<le> T_async")
    case False
    with nq d sub show ?thesis by auto
  next
    case True
    with nq have push: "heappush q (aggregate_time (requeued g), requeued g) = Inr (queue st')"
      by simp
    from heappush_heap [OF hq push]
    have "set (queue st') = insert (aggregate_time (requeued g), requeued g) (set q)"
      by (simp add: mset_add_set)
    moreover have "delays_nonneg (aggregate_time (requeued g), requeued g)"
      using dg by (simp add: delays_nonneg_def requeued_def)
    ultimately show ?thesis using d sub by auto
  qed
  with s' show ?thesis unfolding loop_nonneg_def by blast
qed

lemma pass_mono:
  assumes "loop_inv st" and "loop_nonneg st" and "loop_mono st"
    and "async_pass cfg env T_old T_async st = Inr st'"
  shows "loop_mono st'"
proof -
  from async_pass_Inr [OF assms(4)] obtain k g q where
    pop: "heappop (queue st) = Inr ((k, g), q)" and
    rec: "rec_t (srv_records (srv st')) = rec_t (srv_records (srv st)) @ [aggregate_time g]" and
    nq: "if aggregate_time g - T_old \<le> T_async
         then clients g \<noteq> [] \<and> heappush q (aggregate_time (requeued g), requeued g) = Inr (queue st')
         else queue st' = q"
    by blast
  let ?R = "rec_t (srv_records (srv st))"
  from assms(1) have h: "is_heap (queue st)" and t: "\<forall>e\<in>set (queue st). timed e"
    unfolding loop_inv_def by blast+
  from assms(2) have d: "\<forall>e\<in>set (queue st). delays_nonneg e"
    unfolding loop_nonneg_def by blast
  from assms(3) have sr: "sorted ?R"
    and br: "\<forall>e\<in>set (queue st). \<forall>t\<in>set ?R. t \<le> fst e"
    unfolding loop_mono_def by blast+
  from heappop_heap [OF h pop] have hq: "is_heap q"
    and m: "mset (queue st) = add_mset (k, g) (mset q)"
    and least: "\<forall>y\<in>set (queue st). k \<le> fst y" by simp_all
  from mset_add_set [OF m] have kin: "(k, g) \<in> set (queue st)"
    and sub: "set q \<subseteq> set (queue st)" by auto
  from t kin have tg: "timed (k, g)" by blast
  then have k: "k = aggregate_time g" and ne: "clients g \<noteq> []" by (simp_all add: timed_def)
  from d kin have dg: "\<forall>c\<in>set (clients g). 0 \<le> delay c" by (auto simp: delays_nonneg_def)
  have sr': "sorted (rec_t (srv_records (srv st')))"
    using sr br kin by (auto simp: rec k sorted_append)
  have le_q: "\<forall>e\<in>set q. \<forall>t\<in>set (?R @ [k]). t \<le> fst e"
    using br least sub by auto
  have le_k: "\<forall>t\<in>set (?R @ [k]). t \<le> k"
    using br kin by auto
  have "\<forall>e\<in>set (queue st'). \<forall>t\<in>set (?R @ [k]). t \<le> fst e"
  proof (cases "aggregate_time g - T_old \<le> T_async")
    case False
    with nq le_q show ?thesis by simp
  next
    case True
    with nq have push: "heappush q (aggregate_time (requeued g), requeued g) = Inr (queue st')"
      by simp
    from heappush_heap [OF hq push]
    have sq: "set (queue st') = insert (aggregate_time (requeued g), requeued g) (set q)"
      by (simp add: mset_add_set)
    have "k \<le> aggregate_time (requeued g)"
      using slowest_nonneg [OF ne dg] by (simp add: requeued_def k)
    with le_k have "\<forall>t\<in>set (?R @ [k]). t \<le> aggregate_time (requeued g)"
      by (meson order_trans)
    with le_q show ?thesis unfolding sq by simp
  qed
  with sr' show ?thesis unfolding loop_mono_def rec k by blast
qed

lemma pass_order:
  assumes "loop_inv st" and "loop_nonneg st" and "loop_order st"
    and "async_pass cfg env T_old T_async st = Inr st'"
  shows "loop_order st'"
proof -
  from async_pass_Inr [OF assms(4)] obtain k g q where
    pop: "heappop (queue st) = Inr ((k, g), q)" and
    log: "passed st' = passed st @ [(g, aggregate_time g - download_time g)]" and
    nq: "if aggregate_time g - T_old \<le> T_async
         then clients g \<noteq> [] \<and> heappush q (aggregate_time (requeued g), requeued g) = Inr (queue st')
         else queue st' = q"
    by blast
  let ?P = "popped_times st"
  from assms(1) have h: "is_heap (queue st)" and t: "\<forall>e\<in>set (queue st). timed e"
    unfolding loop_inv_def by blast+
  from assms(2) have d: "\<forall>e\<in>set (queue st). delays_nonneg e"
    unfolding loop_nonneg_def by blast
  from assms(3) have sp: "sorted ?P"
    and bp: "\<forall>e\<in>set (queue st). \<forall>t\<in>set ?P. t \<le> fst e"
    unfolding loop_order_def by blast+
  from heappop_heap [OF h pop] have hq: "is_heap q"
    and m: "mset (queue st) = add_mset (k, g) (mset q)"
    and least: "\<forall>y\<in>set (queue st). k \<le> fst y" by simp_all
  from mset_add_set [OF m] have kin: "(k, g) \<in> set (queue st)"
    and sub: "set q \<subseteq> set (queue st)" by auto
  from t kin have tg: "timed (k, g)" by blast
  then have k: "k = aggregate_time g" and ne: "clients g \<noteq> []" by (simp_all add: timed_def)
  from d kin have dg: "\<forall>c\<in>set (clients g). 0 \<le> delay c" by (auto simp: delays_nonneg_def)
  have pt: "popped_times st' = ?P @ [k]"
    by (simp add: popped_times_def log k)
  have sp': "sorted (popped_times st')"
    using sp bp kin by (auto simp: pt sorted_append)
  have le_q: "\<forall>e\<in>set q. \<forall>t\<in>set (?P @ [k]). t \<le> fst e"
    using bp least sub by auto
  have le_k: "\<forall>t\<in>set (?P @ [k]). t \<le> k"
    using bp kin by auto
  have "\<forall>e\<in>set (queue st'). \<forall>t\<in>set (?P @ [k]). t \<le> fst e"
  proof (cases "aggregate_time g - T_old \<le> T_async")
    case False
    with nq le_q show ?thesis by simp
  next
    case True
    with nq have push: "heappush q (aggregate_time (requeued g), requeued g) = Inr (queue st')"
      by simp
    from heappush_heap [OF hq push]
    have sq: "set (queue st') = insert (aggregate_time (requeued g), requeued g) (set q)"
      by (simp add: mset_add_set)
    have "k \<le> aggregate_time (requeued g)"
      using slowest_nonneg [OF ne dg] by (simp add: requeued_def k)
    with le_k have "\<forall>t\<in>set (?P @ [k]). t \<le> aggregate_time (requeued g)"
      by (meson order_trans)
    with le_q show ?thesis unfolding sq by simp
  qed
  with sp' show ?thesis unfolding loop_order_def pt by blast
qed

section \<open>The loop and its starting state\<close>

lemma iter_inv:
  "async_iter n cfg env T_old T_async st = Inr st' \<Longrightarrow> loop_inv st \<Longrightarrow> loop_inv st'"
proof (induction n arbitrary: st)
  case 0
  then show ?case by simp
next
  case (Suc n)
  show ?case
  proof (cases "queue st = []")
    case True
    with Suc.prems show ?thesis by simp
  next
    case False
    with Suc.prems(1) obtain st1 where
      p: "async_pass cfg env T_old T_async st = Inr st1" and
      r: "async_iter n cfg env T_old T_async st1 = Inr st'"
      by (auto split: sum.splits)
    from Suc.IH [OF r pass_inv [OF Suc.prems(2) p]] show ?thesis .
  qed
qed

lemma iter_nonneg:
  "async_iter n cfg env T_old T_async st = Inr st' \<Longrightarrow> loop_inv st \<Longrightarrow> loop_nonneg st \<Longrightarrow>
   loop_nonneg st'"
proof (induction n arbitrary: st)
  case 0
  then show ?case by simp
next
  case (Suc n)
  show ?case
  proof (cases "queue st = []")
    case True
    with Suc.prems show ?thesis by simp
  next
    case False
    with Suc.prems(1) obtain st1 where
      p: "async_pass cfg env T_old T_async st = Inr st1" and
      r: "async_iter n cfg env T_old T_async st1 = Inr st'"
      by (auto split: sum.splits)
    from Suc.IH [OF r pass_inv [OF Suc.prems(2) p] pass_nonneg [OF Suc.prems(2,3) p]]
    show ?thesis .
  qed
qed

lemma iter_mono:
  "async_iter n cfg env T_old T_async st = Inr st' \<Longrightarrow> loop_inv st \<Longrightarrow> loop_nonneg st \<Longrightarrow>
   loop_mono st \<Longrightarrow> loop_mono st'"
proof (induction n arbitrary: st)
  case 0
  then show ?case by simp
next
  case (Suc n)
  show ?case
  proof (cases "queue st = []")
    case True
    with Suc.prems show ?thesis by simp
  next
    case False
    with Suc.prems(1) obtain st1 where
      p: "async_pass cfg env T_old T_async st = Inr st1" and
      r: "async_iter n cfg env T_old T_async st1 = Inr st'"
      by (auto split: sum.splits)
    from Suc.IH [OF r pass_inv [OF Suc.prems(2) p] pass_nonneg [OF Suc.prems(2,3) p]
        pass_mono [OF Suc.prems(2,3,4) p]]
    show ?thesis .
  qed
qed

lemma iter_order:
  "async_iter n cfg env T_old T_async st = Inr st' \<Longrightarrow> loop_inv st \<Longrightarrow> loop_nonneg st \<Longrightarrow>
   loop_order st \<Longrightarrow> loop_order st'"
proof (induction n arbitrary: st)
  case 0
  then show ?case by simp
next
  case (Suc n)
  show ?case
  proof (cases "queue st = []")
    case True
    with Suc.prems show ?thesis by simp
  next
    case False
    with Suc.prems(1) obtain st1 where
      p: "async_pass cfg env T_old T_async st = Inr st1" and
      r: "async_iter n cfg env T_old T_async st1 = Inr st'"
      by (auto split: sum.splits)
    from Suc.IH [OF r pass_inv [OF Suc.prems(2) p] pass_nonneg [OF Suc.prems(2,3) p]
        pass_order [OF Suc.prems(2,3,4) p]]
    show ?thesis .
  qed
qed

lemma set_delays_props:
  "length (set_delays draw n cs) = length cs \<and>
   map cid (set_delays draw n cs) = map cid cs \<and>
   ((\<forall>m c. 0 \<le> draw m c) \<longrightarrow> (\<forall>c\<in>set (set_delays draw n cs). 0 \<le> delay c))"
  by (induction cs arbitrary: n) auto

lemma prepare_groups_props:
  "prepare_groups draw T_old n gs = Inr gs' \<Longrightarrow>
   map (\<lambda>g. map cid (clients g)) gs' = map (\<lambda>g. map cid (clients g)) gs \<and>
   (\<forall>g\<in>set gs'. timed (aggregate_time g, g) \<and> download_time g = T_old) \<and>
   ((\<forall>m c. 0 \<le> draw m c) \<longrightarrow> (\<forall>g\<in>set gs'. delays_nonneg (aggregate_time g, g)))"
proof (induction gs arbitrary: n gs')
  case Nil
  then show ?case by simp
next
  case (Cons g gs)
  let ?g1 = "set_download_time (g\<lparr>clients := set_delays draw n (clients g)\<rparr>) T_old"
  from Cons.prems obtain g2 gs2 where
    a: "set_aggregate_time ?g1 = Inr g2" and
    r: "prepare_groups draw T_old (n + length (clients g)) gs = Inr gs2" and
    e: "gs' = g2 # gs2"
    by (auto split: sum.splits)
  have ne: "clients ?g1 \<noteq> []"
    using a set_aggregate_time_Inl [of ?g1] by auto
  from a set_aggregate_time_Inr [OF ne]
  have g2: "g2 = ?g1\<lparr>aggregate_time := download_time ?g1 + slowest ?g1\<rparr>" by simp
  have c2: "clients g2 = set_delays draw n (clients g)" and d2: "download_time g2 = T_old"
    by (simp_all add: g2 set_download_time_def)
  have t2: "timed (aggregate_time g2, g2)"
    using ne by (simp add: timed_def g2 slowest_def set_download_time_def)
  have n2: "(\<forall>m c. 0 \<le> draw m c) \<longrightarrow> delays_nonneg (aggregate_time g2, g2)"
    using set_delays_props [of draw n "clients g"] by (simp add: delays_nonneg_def c2)
  have i2: "map cid (clients g2) = map cid (clients g)"
    using set_delays_props [of draw n "clients g"] by (simp add: c2)
  from Cons.IH [OF r] t2 d2 n2 i2 show ?case by (simp add: e)
qed

lemma put_all_heap:
  "put_all q gs = Inr q' \<Longrightarrow> is_heap q \<Longrightarrow>
   is_heap q' \<and> mset q' = mset q + mset (map (\<lambda>g. (aggregate_time g, g)) gs)"
proof (induction gs arbitrary: q)
  case Nil
  then show ?case by simp
next
  case (Cons g gs)
  from Cons.prems(1) obtain q1 where
    p: "heappush q (aggregate_time g, g) = Inr q1" and r: "put_all q1 gs = Inr q'"
    by (auto split: sum.splits)
  from heappush_heap [OF Cons.prems(2) p] have h1: "is_heap q1"
    and m1: "mset q1 = add_mset (aggregate_time g, g) (mset q)" by simp_all
  from Cons.IH [OF r h1] m1 show ?case by simp
qed

lemma async_start_props:
  assumes "async_start env T_old server = Inr st0"
  shows "\<exists>groups. prepare_groups (draw_delay env) T_old (n_delay server) (selection env server)
                    = Inr groups \<and>
           mset (queue st0) = mset (map (\<lambda>g. (aggregate_time g, g)) groups) \<and>
           is_heap (queue st0) \<and> passed st0 = [] \<and>
           srv_records (srv st0) = srv_records server \<and>
           srv_model (srv st0) = srv_model server"
proof -
  from assms obtain groups q where
    g: "prepare_groups (draw_delay env) T_old (n_delay server) (selection env server) = Inr groups"
    and p: "put_all [] groups = Inr q"
    and st0: "st0 = \<lparr>srv = server
                           \<lparr>n_sample := Suc (n_sample server),
                            n_delay := n_delay server + length (concat (map clients groups))\<rparr>,
                    queue = q, passed = []\<rparr>"
    by (auto simp: async_start_def Let_def split: sum.splits)
  have "is_heap []" by (simp add: is_heap_def)
  from put_all_heap [OF p this] g st0 show ?thesis by simp
qed

lemma async_start_inv:
  assumes "async_start env T_old server = Inr st0"
  shows "loop_inv st0"
    and "\<forall>m c. 0 \<le> draw_delay env m c \<Longrightarrow> loop_nonneg st0"
    and "\<forall>m c. 0 \<le> draw_delay env m c \<Longrightarrow> sorted (rec_t (srv_records server)) \<Longrightarrow>
         \<forall>t\<in>set (rec_t (srv_records server)). t \<le> T_old \<Longrightarrow> loop_mono st0"
    and "loop_order st0"
proof -
  from async_start_props [OF assms] obtain groups where
    g: "prepare_groups (draw_delay env) T_old (n_delay server) (selection env server) = Inr groups"
    and m: "mset (queue st0) = mset (map (\<lambda>g. (aggregate_time g, g)) groups)"
    and h: "is_heap (queue st0)" and l: "passed st0 = []"
    and r: "srv_records (srv st0) = srv_records server"
    by blast
  from m have s: "set (queue st0) = (\<lambda>g. (aggregate_time g, g)) ` set groups"
    by (metis set_mset_mset set_map)
  from prepare_groups_props [OF g] have
    t: "\<forall>g\<in>set groups. timed (aggregate_time g, g) \<and> download_time g = T_old" and
    n: "(\<forall>m c. 0 \<le> draw_delay env m c) \<longrightarrow> (\<forall>g\<in>set groups. delays_nonneg (aggregate_time g, g))"
    by blast+
  show inv: "loop_inv st0" using h t s l by (auto simp: loop_inv_def)
  show nn: "loop_nonneg st0" if "\<forall>m c. 0 \<le> draw_delay env m c"
    using that n s l by (auto simp: loop_nonneg_def)
  show "loop_mono st0" if d: "\<forall>m c. 0 \<le> draw_delay env m c"
    and sr: "sorted (rec_t (srv_records server))"
    and b: "\<forall>t\<in>set (rec_t (srv_records server)). t \<le> T_old"
  proof -
    have "T_old \<le> fst e" if e: "e \<in> set (queue st0)" for e
    proof -
      from e s obtain g where gg: "g \<in> set groups" and eg: "e = (aggregate_time g, g)" by auto
      from t gg have tg: "timed (aggregate_time g, g)" and dl: "download_time g = T_old" by auto
      from n d gg have "delays_nonneg (aggregate_time g, g)" by blast
      with tg slowest_nonneg [of g] have "0 \<le> slowest g"
        by (simp add: timed_def delays_nonneg_def)
      with tg dl eg show ?thesis by (simp add: timed_def)
    qed
    with b have "\<forall>e\<in>set (queue st0). \<forall>t\<in>set (rec_t (srv_records server)). t \<le> fst e"
      by (meson order_trans)
    with sr show ?thesis by (simp add: loop_mono_def r)
  qed
  show "loop_order st0" by (simp add: loop_order_def popped_times_def l)
qed

section \<open>The concrete rounds, evaluated\<close>

lemmas round_eval =
  async_start_def selection_def Group_def set_download_time_def set_aggregate_time_def
  heappush_def heappop_def siftdown_def siftup_def siftdown_loop.simps siftup_loop.simps
  entry_lt_def async_pass_def aggregation_def federated_async_def federated_averaging_def
  extract_client_weights_def staleness_def evaluate_def accuracy_averaging_def
  append_acc_record_def server0_def report_one_def cfg_async_def Let_def

lemma late_start_eval: "async_start env_late 0 server0 = Inr late_start"
  by (simp add: round_eval env_late_def late_start_def)

lemma late_final_eval: "async_iter 5 cfg_async env_late 0 10 late_start = Inr late_final"
  by (simp add: round_eval env_late_def late_start_def late_final_def eval_nat_numeral)

lemma fresh_start_eval: "async_start env_fresh 0 server0 = Inr fresh_start"
  by (simp add: round_eval env_fresh_def fresh_start_def)

lemma fresh_next_eval: "async_pass cfg_async env_fresh 0 10 fresh_start = Inr fresh_next"
  by (simp add: round_eval env_fresh_def fresh_start_def fresh_next_def)

lemma tie_start_eval: "async_start env_tie 0 server0 = Inl TypeError"
  by (simp add: round_eval env_tie_def)

section \<open>Claims about the rounds\<close>

text \<open>
  Claim C4. The queue orders its entries by comparing the tuples
  \<^verbatim>\<open>(aggregate_time, group)\<close>; with equal times the comparison reaches the two groups,
  which have no order, and raises. Two selected clients that draw the same delay give two
  entries with the same time: the second \<^verbatim>\<open>queue.put\<close> compares them and the round ends
  in \<^verbatim>\<open>TypeError\<close> before any group has run. (Whenever the queue operations succeed the groups do
  come out in the order of their times, whatever the order of insertion:
  \<open>put_all_heap\<close> and \<open>heappop_heap\<close>.)
\<close>

theorem equal_times_raise:
  "async_round fuel cfg_async env_tie 0 10 server0 = Some (Inl TypeError)"
  by (simp add: async_round_def tie_start_eval)

lemma federated_async_unknown_name:
  assumes "staleness_func \<noteq> ''constant''" "staleness_func \<noteq> ''polynomial''"
    "staleness_func \<noteq> ''hinge''"
  shows "staleness staleness_func so = Inr PyNone"
    and "\<exists>e. federated_async alpha staleness_func model reports so = Inl e"
    and "reports \<noteq> [] \<Longrightarrow> \<forall>r\<in>set reports. length (weights r) = length model \<Longrightarrow>
         0 < sum_list (map num_samples reports) \<Longrightarrow>
         federated_async alpha staleness_func model reports so = Inl TypeError"
proof -
  show n: "staleness staleness_func so = Inr PyNone"
    using assms by (simp add: staleness_def)
  show "\<exists>e. federated_async alpha staleness_func model reports so = Inl e"
    by (simp add: federated_async_def n Let_def split: list.splits sum.splits)
  show "federated_async alpha staleness_func model reports so = Inl TypeError"
    if ne: "reports \<noteq> []" and len: "\<forall>r\<in>set reports. length (weights r) = length model"
      and tot: "0 < sum_list (map num_samples reports)"
  proof -
    define ws where "ws = extract_client_weights reports"
    obtain w0 wr where ws: "ws = w0 # wr"
      using ne by (cases ws) (auto simp: ws_def extract_client_weights_def)
    have lws: "\<forall>u\<in>set ws. length u = length model"
      using len by (auto simp: ws_def extract_client_weights_def)
    then have lw0: "length w0 = length model" using ws by simp
    have t0: "sum_list (map num_samples reports) \<noteq> 0" using tot by simp
    have "length ws = length reports" by (simp add: ws_def extract_client_weights_def)
    from weighted_sum_from_zero [OF t0 lws this] obtain nw where
      "weighted_sum (replicate (length model) 0) reports (sum_list (map num_samples reports)) 0 ws
         = Inr nw"
      by blast
    then show ?thesis
      unfolding federated_async_def ws_def [symmetric]
      using ws lw0 n by (simp add: map_const_replicate)
  qed
qed

lemma run_unknown_mode:
  assumes "cfg_sync_type cfg \<noteq> ''sync''" "cfg_sync_type cfg \<noteq> ''async''" "1 \<le> cfg_rounds cfg"
  shows "run fuel cfg env server = Some (Inl NotImplementedError)"
proof -
  from assms(3) have "[1..cfg_rounds cfg] = 1 # [2..cfg_rounds cfg]"
    by (simp add: upto.simps)
  with assms(1,2) show ?thesis by (simp add: run_def)
qed

text \<open>
  Claim C9. A synchrony mode other than \<^verbatim>\<open>sync\<close> and \<^verbatim>\<open>async\<close> makes \<^verbatim>\<open>aggregation\<close>
  raise \<^verbatim>\<open>NotImplementedError\<close>, and makes \<^verbatim>\<open>run\<close> raise it in its first round, before
  any client is selected (the mode is first used there: the round budget must allow one
  round). A staleness function name other than the three makes \<^verbatim>\<open>staleness\<close> return
  \<^verbatim>\<open>None\<close>, on which its first use, the product \<^verbatim>\<open>self.alpha * self.staleness(...)\<close> in
  \<^verbatim>\<open>federated_async\<close>, raises \<^verbatim>\<open>TypeError\<close>: \<^verbatim>\<open>federated_async\<close> returns no result under
  such a name, whatever its other arguments.
\<close>

theorem unknown_names_raise:
  "(sync_type \<noteq> ''sync'' \<and> sync_type \<noteq> ''async'' \<longrightarrow>
      aggregation sync_type alpha staleness_func model reports so = Inl NotImplementedError)
   \<and> (cfg_sync_type cfg \<noteq> ''sync'' \<and> cfg_sync_type cfg \<noteq> ''async'' \<and> 1 \<le> cfg_rounds cfg \<longrightarrow>
      run fuel cfg env server = Some (Inl NotImplementedError))
   \<and> (staleness_func \<noteq> ''constant'' \<and> staleness_func \<noteq> ''polynomial'' \<and>
      staleness_func \<noteq> ''hinge'' \<longrightarrow>
        staleness staleness_func so = Inr PyNone
      \<and> (\<exists>e. federated_async alpha staleness_func model reports so = Inl e)
      \<and> (reports \<noteq> [] \<and> (\<forall>r\<in>set reports. length (weights r) = length model) \<and>
         0 < sum_list (map num_samples reports) \<longrightarrow>
           federated_async alpha staleness_func model reports so = Inl TypeError))"
  using run_unknown_mode [of cfg fuel env server]
    federated_async_unknown_name(1) [of staleness_func so]
    federated_async_unknown_name(2) [of staleness_func alpha model reports so]
    federated_async_unknown_name(3) [of staleness_func reports model alpha so]
  by (simp add: aggregation_def)

theorem unknown_names_raise_witness:
  "aggregation ''semi'' 1 ''linear'' [(''w'', 0 :: real)] [report_one \<lparr>cid = 0, delay = 0\<rparr>]
      (Some 0) = Inl NotImplementedError
   \<and> run 0 (cfg_async\<lparr>cfg_sync_type := ''semi''\<rparr>) env_late server0
      = Some (Inl NotImplementedError)
   \<and> staleness ''linear'' (Some 0) = Inr PyNone
   \<and> federated_async 1 ''linear'' [(''w'', 0 :: real)] [report_one \<lparr>cid = 0, delay = 0\<rparr>]
      (Some 0) = Inl TypeError"
  using unknown_names_raise [of "''semi''" 1 "''linear''" "[(''w'', 0 :: real)]"
      "[report_one \<lparr>cid = 0, delay = 0\<rparr>]" "Some 0" "cfg_async\<lparr>cfg_sync_type := ''semi''\<rparr>"
      0 env_late server0]
  by (simp add: cfg_async_def report_one_def)

text \<open>
  Claim C10. In every state the loop of \<^verbatim>\<open>async_round\<close> reaches, each staleness handed
  to \<^verbatim>\<open>aggregation\<close> so far was the popped group's aggregate time minus its download
  time and equals the largest delay among the group's clients; the same difference is
  the largest delay for every pending entry, hence for whatever is popped next. When no
  drawn delay is negative, none of these values is negative.
\<close>

theorem staleness_is_slowest_delay:
  assumes "async_start env T_old server = Inr st0"
    and "async_iter n cfg env T_old T_async st0 = Inr st"
  shows "(\<forall>p\<in>set (passed st).
            snd p = aggregate_time (fst p) - download_time (fst p) \<and> snd p = slowest (fst p))
       \<and> (\<forall>e\<in>set (queue st). aggregate_time (snd e) - download_time (snd e) = slowest (snd e))
       \<and> ((\<forall>m c. 0 \<le> draw_delay env m c) \<longrightarrow>
            (\<forall>p\<in>set (passed st). 0 \<le> snd p)
          \<and> (\<forall>e\<in>set (queue st). 0 \<le> aggregate_time (snd e) - download_time (snd e)))"
proof -
  from iter_inv [OF assms(2) async_start_inv(1) [OF assms(1)]] have inv: "loop_inv st" .
  then have a: "\<forall>p\<in>set (passed st).
            snd p = aggregate_time (fst p) - download_time (fst p) \<and> snd p = slowest (fst p)"
    and t: "\<forall>e\<in>set (queue st). timed e"
    unfolding loop_inv_def by blast+
  from t have b: "\<forall>e\<in>set (queue st). aggregate_time (snd e) - download_time (snd e) = slowest (snd e)"
    by (auto simp: timed_def)
  have c: "(\<forall>p\<in>set (passed st). 0 \<le> snd p)
          \<and> (\<forall>e\<in>set (queue st). 0 \<le> aggregate_time (snd e) - download_time (snd e))"
    if d: "\<forall>m c. 0 \<le> draw_delay env m c"
  proof -
    from iter_nonneg [OF assms(2) async_start_inv(1) [OF assms(1)]
        async_start_inv(2) [OF assms(1) d]]
    have nn: "loop_nonneg st" .
    then have p: "\<forall>p\<in>set (passed st). 0 \<le> snd p"
      and q: "\<forall>e\<in>set (queue st). delays_nonneg e"
      unfolding loop_nonneg_def by blast+
    have "0 \<le> aggregate_time (snd e) - download_time (snd e)" if e: "e \<in> set (queue st)" for e
    proof -
      from t e have "timed e" by blast
      moreover from q e have "delays_nonneg e" by blast
      ultimately show ?thesis using slowest_nonneg [of "snd e"]
        by (simp add: timed_def delays_nonneg_def)
    qed
    with p show ?thesis by blast
  qed
  from a b c show ?thesis by blast
qed

theorem staleness_is_slowest_delay_witness:
  "async_start env_late 0 server0 = Inr late_start
   \<and> async_iter 5 cfg_async env_late 0 10 late_start = Inr late_final
   \<and> map snd (passed late_final) = [4, 4, 4, 20]
   \<and> map (\<lambda>p. slowest (fst p)) (passed late_final) = [4, 4, 4, 20]
   \<and> map (\<lambda>p. aggregate_time (fst p) - download_time (fst p)) (passed late_final)
       = [4, 4, 4, 20]"
proof -
  have d: "\<forall>m c. 0 \<le> draw_delay env_late m c" by (simp add: env_late_def)
  from staleness_is_slowest_delay [OF late_start_eval late_final_eval] d
  have "\<forall>p\<in>set (passed late_final).
            snd p = aggregate_time (fst p) - download_time (fst p) \<and> snd p = slowest (fst p)"
    by blast
  then have "\<forall>p\<in>set (passed late_final). slowest (fst p) = snd p"
    and "\<forall>p\<in>set (passed late_final). aggregate_time (fst p) - download_time (fst p) = snd p"
    by metis+
  then have "map (\<lambda>p. slowest (fst p)) (passed late_final) = map snd (passed late_final)"
    and "map (\<lambda>p. aggregate_time (fst p) - download_time (fst p)) (passed late_final)
       = map snd (passed late_final)"
    by (simp_all only: map_eq_conv)
  moreover have "map snd (passed late_final) = [4, 4, 4, 20]"
    by (simp add: late_final_def)
  ultimately show ?thesis using late_start_eval late_final_eval by simp
qed

section \<open>Monotonic time\<close>

lemma py_max_in: "py_max xs = Inr m \<Longrightarrow> m \<in> set xs"
proof -
  assume a: "py_max xs = Inr m"
  then have ne: "xs \<noteq> []" by (cases xs) auto
  from py_max_Max [OF ne] a have "m = Max (set xs)" by simp
  with ne show ?thesis using Max_in [of "set xs"] by simp
qed

lemma sorted_bounded_last:
  "sorted xs \<Longrightarrow> xs \<noteq> [] \<Longrightarrow> \<forall>t\<in>set xs. t \<le> (last xs :: real)"
  by (cases xs rule: rev_cases) (auto simp: sorted_append)

lemma sync_round_mono:
  assumes "sync_round cfg env T_old server = Inr (a, T_new, server')"
    and "\<forall>m c. 0 \<le> draw_delay env m c"
    and "sorted (rec_t (srv_records server))"
    and "\<forall>t\<in>set (rec_t (srv_records server)). t \<le> T_old"
  shows "sorted (rec_t (srv_records server')) \<and> (\<forall>t\<in>set (rec_t (srv_records server')). t \<le> T_new)"
proof -
  from assms(1) obtain groups max_delay where
    g: "prepare_groups (draw_delay env) T_old (n_delay server) (selection env server) = Inr groups"
    and mx: "py_max (map delay (concat (map clients groups))) = Inr max_delay"
    and tn: "T_new = T_old + max_delay"
    and rec: "rec_t (srv_records server') = rec_t (srv_records server) @ [T_new]"
    by (auto simp: sync_round_def Let_def append_acc_record_def split: sum.splits)
  from prepare_groups_props [OF g] assms(2)
  have "\<forall>g\<in>set groups. delays_nonneg (aggregate_time g, g)" by blast
  then have "\<forall>d\<in>set (map delay (concat (map clients groups))). 0 \<le> d"
    by (auto simp: delays_nonneg_def)
  with py_max_in [OF mx] have "0 \<le> max_delay" by blast
  with tn have le: "T_old \<le> T_new" by simp
  with assms(4) have "\<forall>t\<in>set (rec_t (srv_records server)). t \<le> T_new"
    by (meson order_trans)
  with assms(3) show ?thesis by (auto simp: rec sorted_append)
qed

lemma async_round_Inr:
  assumes "async_round fuel cfg env T_old T_async server = Some (Inr (a, T_new, server'))"
  shows "\<exists>st0 st. async_start env T_old server = Inr st0 \<and>
           async_iter fuel cfg env T_old T_async st0 = Inr st \<and> queue st = [] \<and>
           server' = srv st \<and> rec_t (srv_records server') \<noteq> [] \<and>
           T_new = last (rec_t (srv_records server'))"
  using assms
  by (auto simp: async_round_def async_while_def get_latest_t_def get_latest_acc_def
      split: sum.splits option.splits if_splits)

lemma async_round_mono:
  assumes "async_round fuel cfg env T_old T_async server = Some (Inr (a, T_new, server'))"
    and "\<forall>m c. 0 \<le> draw_delay env m c"
    and "sorted (rec_t (srv_records server))"
    and "\<forall>t\<in>set (rec_t (srv_records server)). t \<le> T_old"
  shows "sorted (rec_t (srv_records server')) \<and> (\<forall>t\<in>set (rec_t (srv_records server')). t \<le> T_new)"
proof -
  from async_round_Inr [OF assms(1)] obtain st0 st where
    s: "async_start env T_old server = Inr st0" and
    i: "async_iter fuel cfg env T_old T_async st0 = Inr st" and
    e: "server' = srv st" and ne: "rec_t (srv_records server') \<noteq> []" and
    tn: "T_new = last (rec_t (srv_records server'))"
    by blast
  from iter_mono [OF i async_start_inv(1) [OF s] async_start_inv(2) [OF s assms(2)]
      async_start_inv(3) [OF s assms(2,3,4)]]
  have "sorted (rec_t (srv_records server'))" by (simp add: loop_mono_def e)
  with sorted_bounded_last [OF this ne] tn show ?thesis by simp
qed

lemma run_rounds_mono:
  "run_rounds fuel cfg env rs T_old server = Some (Inr (T', server')) \<Longrightarrow>
   \<forall>m c. 0 \<le> draw_delay env m c \<Longrightarrow>
   sorted (rec_t (srv_records server)) \<Longrightarrow>
   \<forall>t\<in>set (rec_t (srv_records server)). t \<le> T_old \<Longrightarrow>
   sorted (rec_t (srv_records server')) \<and> (\<forall>t\<in>set (rec_t (srv_records server')). t \<le> T')"
proof (induction rs arbitrary: T_old server)
  case Nil
  then show ?case by simp
next
  case (Cons r rs)
  let ?round = "if cfg_sync_type cfg = ''sync'' then Some (sync_round cfg env T_old server)
            else if cfg_sync_type cfg = ''async''
              then async_round fuel cfg env T_old (cfg_interval cfg) server
            else Some (Inl NotImplementedError)"
  from Cons.prems(1) obtain a T_new s1 where
    rd: "?round = Some (Inr (a, T_new, s1))" and
    k: "if target_met cfg a then T' = T_new \<and> server' = s1
        else run_rounds fuel cfg env rs T_new s1 = Some (Inr (T', server'))"
    by (auto split: option.splits sum.splits prod.splits if_splits)
  have m: "sorted (rec_t (srv_records s1)) \<and> (\<forall>t\<in>set (rec_t (srv_records s1)). t \<le> T_new)"
  proof (cases "cfg_sync_type cfg = ''sync''")
    case True
    with rd have "sync_round cfg env T_old server = Inr (a, T_new, s1)" by simp
    from sync_round_mono [OF this Cons.prems(2,3,4)] show ?thesis .
  next
    case False
    with rd have "async_round fuel cfg env T_old (cfg_interval cfg) server
        = Some (Inr (a, T_new, s1))"
      by (simp split: if_splits)
    from async_round_mono [OF this Cons.prems(2,3,4)] show ?thesis .
  qed
  show ?case
  proof (cases "target_met cfg a")
    case True
    with k m show ?thesis by simp
  next
    case False
    with k have "run_rounds fuel cfg env rs T_new s1 = Some (Inr (T', server'))" by simp
    from Cons.IH [OF this Cons.prems(2)] m show ?thesis by blast
  qed
qed

text \<open>
  Claim C5. When no drawn delay is negative: the record a run leaves has its times in
  non-decreasing order; from a record in order whose times are at most \<open>T_old\<close>, any
  number of rounds leaves the record in order with times at most the new \<open>T_old\<close>, a sync
  round leaves the record in order and so does every number of passes of the async loop;
  and in every state the async loop reaches, the aggregate times of the groups popped so
  far are in non-decreasing order.
\<close>

theorem record_times_monotone:
  assumes "\<forall>m c. 0 \<le> draw_delay env m c"
  shows "(run fuel cfg env server = Some (Inr server') \<longrightarrow>
            sorted (rec_t (srv_records server')))
       \<and> (sorted (rec_t (srv_records server)) \<and>
          (\<forall>t\<in>set (rec_t (srv_records server)). t \<le> T_old) \<longrightarrow>
            (run_rounds fuel cfg env rs T_old server = Some (Inr (T', server2)) \<longrightarrow>
               sorted (rec_t (srv_records server2)) \<and>
               (\<forall>t\<in>set (rec_t (srv_records server2)). t \<le> T'))
          \<and> (sync_round cfg env T_old server = Inr (a, T_new, server1) \<longrightarrow>
               sorted (rec_t (srv_records server1)))
          \<and> (async_start env T_old server = Inr st0 \<and>
             async_iter n cfg env T_old T_async st0 = Inr st \<longrightarrow>
               sorted (rec_t (srv_records (srv st)))))
       \<and> (async_start env T_old server = Inr st0 \<and>
          async_iter n cfg env T_old T_async st0 = Inr st \<longrightarrow>
            sorted (popped_times st))"
proof -
  have r: "sorted (rec_t (srv_records server'))"
    if run: "run fuel cfg env server = Some (Inr server')"
  proof -
    from run obtain T where
      "run_rounds fuel cfg env [1..cfg_rounds cfg] 0
         (server\<lparr>srv_records := \<lparr>rec_t = [], rec_acc = []\<rparr>\<rparr>) = Some (Inr (T, server'))"
      by (auto simp: run_def split: option.splits sum.splits)
    from run_rounds_mono [OF this assms] show ?thesis by simp
  qed
  have rr: "sorted (rec_t (srv_records server2)) \<and>
               (\<forall>t\<in>set (rec_t (srv_records server2)). t \<le> T')"
    if "sorted (rec_t (srv_records server))" "\<forall>t\<in>set (rec_t (srv_records server)). t \<le> T_old"
      "run_rounds fuel cfg env rs T_old server = Some (Inr (T', server2))"
    using run_rounds_mono [OF that(3) assms that(1,2)] .
  have s: "sorted (rec_t (srv_records server1))"
    if "sorted (rec_t (srv_records server))" "\<forall>t\<in>set (rec_t (srv_records server)). t \<le> T_old"
      "sync_round cfg env T_old server = Inr (a, T_new, server1)"
    using sync_round_mono [OF that(3) assms that(1,2)] by simp
  have l: "sorted (rec_t (srv_records (srv st)))"
    if "sorted (rec_t (srv_records server))" "\<forall>t\<in>set (rec_t (srv_records server)). t \<le> T_old"
      "async_start env T_old server = Inr st0" "async_iter n cfg env T_old T_async st0 = Inr st"
    using iter_mono [OF that(4) async_start_inv(1) [OF that(3)]
        async_start_inv(2) [OF that(3) assms] async_start_inv(3) [OF that(3) assms that(1,2)]]
    by (simp add: loop_mono_def)
  have p: "sorted (popped_times st)"
    if "async_start env T_old server = Inr st0" "async_iter n cfg env T_old T_async st0 = Inr st"
    using iter_order [OF that(2) async_start_inv(1) [OF that(1)]
        async_start_inv(2) [OF that(1) assms] async_start_inv(4) [OF that(1)]]
    by (simp add: loop_order_def)
  from r rr s l p show ?thesis by blast
qed

lemma late_run_eval:
  "run 5 cfg_async env_late server0
     = Some (Inr \<lparr>srv_model = [(''w'', 1)],
                  srv_records = \<lparr>rec_t = [4, 8, 12, 20], rec_acc = [1, 1, 1, 1]\<rparr>,
                  n_sample = 1, n_delay = 2, n_train = 4\<rparr>)"
proof -
  have "server0\<lparr>srv_records := \<lparr>rec_t = [], rec_acc = []\<rparr>\<rparr> = server0"
    by (simp add: server0_def)
  moreover have "[1..cfg_rounds cfg_async] = [1]"
    by (simp add: cfg_async_def upto.simps)
  moreover have "cfg_sync_type cfg_async = ''async''" "cfg_interval cfg_async = 10"
    "target_met cfg_async 1 = False"
    by (simp_all add: cfg_async_def target_met_def)
  moreover have "async_round 5 cfg_async env_late 0 10 server0
     = Some (Inr (1, 20, srv late_final))"
    by (simp add: async_round_def async_while_def late_start_eval late_final_eval
        get_latest_acc_def get_latest_t_def) (simp add: late_final_def)
  ultimately show ?thesis by (simp add: run_def late_final_def)
qed

theorem record_times_monotone_witness:
  "run 5 cfg_async env_late server0
     = Some (Inr \<lparr>srv_model = [(''w'', 1)],
                  srv_records = \<lparr>rec_t = [4, 8, 12, 20], rec_acc = [1, 1, 1, 1]\<rparr>,
                  n_sample = 1, n_delay = 2, n_train = 4\<rparr>)
   \<and> sorted [4, 8, 12, 20 :: real]
   \<and> async_start env_late 0 server0 = Inr late_start
   \<and> async_iter 5 cfg_async env_late 0 10 late_start = Inr late_final
   \<and> popped_times late_final = [4, 8, 12, 20]
   \<and> sorted (popped_times late_final)
   \<and> sorted (rec_t (srv_records (srv late_final)))"
proof -
  have d: "\<forall>m c. 0 \<le> draw_delay env_late m c" by (simp add: env_late_def)
  have e: "sorted (rec_t (srv_records server0))"
    "\<forall>t\<in>set (rec_t (srv_records server0)). t \<le> 0"
    by (simp_all add: server0_def)
  from record_times_monotone [OF d, of 5 cfg_async server0 _ 0 _ _ _ _ _ _ late_start 5 10
      late_final]
    late_run_eval late_start_eval late_final_eval e
  have "sorted (popped_times late_final)" "sorted (rec_t (srv_records (srv late_final)))"
    by simp_all
  moreover have "popped_times late_final = [4, 8, 12, 20]"
    by (simp add: popped_times_def late_final_def)
  ultimately show ?thesis using late_run_eval late_start_eval late_final_eval by simp
qed

section \<open>Re-enqueueing and the end of the round\<close>

lemma pass_covers:
  assumes "loop_inv st" and "async_pass cfg env T_old T_async st = Inr st'"
    and "\<forall>e\<in>E. snd e \<in> fst ` set (passed st) \<or> e \<in> set (queue st)"
  shows "\<forall>e\<in>E. snd e \<in> fst ` set (passed st') \<or> e \<in> set (queue st')"
proof -
  from async_pass_Inr [OF assms(2)] obtain k g q where
    pop: "heappop (queue st) = Inr ((k, g), q)" and
    log: "passed st' = passed st @ [(g, aggregate_time g - download_time g)]" and
    nq: "if aggregate_time g - T_old \<le> T_async
         then clients g \<noteq> [] \<and> heappush q (aggregate_time (requeued g), requeued g) = Inr (queue st')
         else queue st' = q"
    by blast
  from assms(1) have h: "is_heap (queue st)" unfolding loop_inv_def by blast
  from heappop_heap [OF h pop] have hq: "is_heap q"
    and m: "mset (queue st) = add_mset (k, g) (mset q)" by simp_all
  from mset_add_set [OF m] have sq: "set (queue st) = insert (k, g) (set q)" .
  have sub: "set q \<subseteq> set (queue st')"
  proof (cases "aggregate_time g - T_old \<le> T_async")
    case False
    with nq show ?thesis by simp
  next
    case True
    with nq have "heappush q (aggregate_time (requeued g), requeued g) = Inr (queue st')" by simp
    from heappush_heap [OF hq this] show ?thesis by (auto simp: mset_add_set)
  qed
  show ?thesis
  proof
    fix e assume "e \<in> E"
    with assms(3) consider "snd e \<in> fst ` set (passed st)" | "e = (k, g)" | "e \<in> set q"
      using sq by auto
    then show "snd e \<in> fst ` set (passed st') \<or> e \<in> set (queue st')"
    proof cases
      case 1
      then show ?thesis by (auto simp: log)
    next
      case 2
      then show ?thesis by (simp add: log)
    next
      case 3
      with sub show ?thesis by blast
    qed
  qed
qed

lemma iter_covers:
  "async_iter n cfg env T_old T_async st = Inr st' \<Longrightarrow> loop_inv st \<Longrightarrow>
   \<forall>e\<in>E. snd e \<in> fst ` set (passed st) \<or> e \<in> set (queue st) \<Longrightarrow>
   \<forall>e\<in>E. snd e \<in> fst ` set (passed st') \<or> e \<in> set (queue st')"
proof (induction n arbitrary: st)
  case 0
  then show ?case by simp
next
  case (Suc n)
  show ?case
  proof (cases "queue st = []")
    case True
    with Suc.prems show ?thesis by simp
  next
    case False
    with Suc.prems(1) obtain st1 where
      p: "async_pass cfg env T_old T_async st = Inr st1" and
      r: "async_iter n cfg env T_old T_async st1 = Inr st'"
      by (auto split: sum.splits)
    from Suc.IH [OF r pass_inv [OF Suc.prems(2) p] pass_covers [OF Suc.prems(2) p Suc.prems(3)]]
    show ?thesis .
  qed
qed

lemma round_runs_every_group:
  assumes "async_start env T_old server = Inr st0"
    and "async_while n cfg env T_old T_async st0 = Some (Inr st)"
  shows "\<forall>e\<in>set (queue st0). snd e \<in> fst ` set (passed st)"
    and "\<forall>c\<in>set (sample env (n_sample server)).
           \<exists>p\<in>set (passed st). map cid (clients (fst p)) = [cid c] \<and> download_time (fst p) = T_old"
proof -
  from assms(2) have i: "async_iter n cfg env T_old T_async st0 = Inr st" and e: "queue st = []"
    by (auto simp: async_while_def split: sum.splits if_splits)
  have "\<forall>e\<in>set (queue st0). snd e \<in> fst ` set (passed st0) \<or> e \<in> set (queue st0)" by simp
  from iter_covers [OF i async_start_inv(1) [OF assms(1)] this] e
  show a: "\<forall>e\<in>set (queue st0). snd e \<in> fst ` set (passed st)" by simp
  from async_start_props [OF assms(1)] obtain groups where
    g: "prepare_groups (draw_delay env) T_old (n_delay server) (selection env server) = Inr groups"
    and m: "mset (queue st0) = mset (map (\<lambda>g. (aggregate_time g, g)) groups)"
    by blast
  from m have s: "set (queue st0) = (\<lambda>g. (aggregate_time g, g)) ` set groups"
    by (metis set_mset_mset set_map)
  from prepare_groups_props [OF g] have
    ids: "map (\<lambda>g. map cid (clients g)) groups = map (\<lambda>c. [cid c]) (sample env (n_sample server))"
    and dl: "\<forall>g\<in>set groups. download_time g = T_old"
    by (simp_all add: selection_def Group_def comp_def)
  show "\<forall>c\<in>set (sample env (n_sample server)).
           \<exists>p\<in>set (passed st). map cid (clients (fst p)) = [cid c] \<and> download_time (fst p) = T_old"
  proof
    fix c assume "c \<in> set (sample env (n_sample server))"
    then have "[cid c] \<in> set (map (\<lambda>g. map cid (clients g)) groups)"
      unfolding ids by simp
    then obtain g where gg: "g \<in> set groups" and gc: "map cid (clients g) = [cid c]" by auto
    from gg s have "(aggregate_time g, g) \<in> set (queue st0)" by simp
    with a have "g \<in> fst ` set (passed st)" by force
    then obtain p where p: "p \<in> set (passed st)" "fst p = g" by auto
    from dl gg have "download_time g = T_old" by blast
    with gc p have r: "map cid (clients (fst p)) = [cid c] \<and> download_time (fst p) = T_old"
      by simp
    show "\<exists>p\<in>set (passed st). map cid (clients (fst p)) = [cid c] \<and>
        download_time (fst p) = T_old"
      using r p(1) by (intro bexI [of _ p]) simp_all
  qed
qed

lemma slowest_pos:
  assumes "clients g \<noteq> []" and "\<forall>c\<in>set (clients g). 0 < delay c"
  shows "0 < slowest g"
proof -
  from assms(1) have "slowest g \<in> set (map delay (clients g))"
    unfolding slowest_def by (intro Max_in) auto
  with assms(2) show ?thesis by auto
qed

lemma budget_pos: "0 < budget T_old T_async e"
  by (simp add: budget_def)

lemma passes_left_mset:
  "mset q = mset q' \<Longrightarrow> passes_left T_old T_async q = passes_left T_old T_async q'"
  unfolding passes_left_def by (metis mset_map sum_mset_sum_list)

lemma passes_left_Cons:
  "passes_left T_old T_async (e # q) = budget T_old T_async e + passes_left T_old T_async q"
  by (simp add: passes_left_def)

lemma passes_left_add:
  "mset q' = add_mset e (mset q) \<Longrightarrow>
   passes_left T_old T_async q' = budget T_old T_async e + passes_left T_old T_async q"
  using passes_left_mset [of q' "e # q"] by (simp add: passes_left_Cons)

lemma passes_left_zero: "passes_left T_old T_async q = 0 \<Longrightarrow> q = []"
  using budget_pos [of T_old T_async "hd q"] by (cases q) (simp_all add: passes_left_Cons)

lemma budget_requeued:
  assumes "0 < slowest g" and "aggregate_time g - T_old \<le> T_async"
  shows "budget T_old T_async (aggregate_time (requeued g), requeued g)
           < budget T_old T_async (aggregate_time g, g)"
proof -
  define m where "m = slowest g"
  define X where "X = T_async - (aggregate_time g - T_old)"
  have sl: "slowest (requeued g) = m" by (simp add: requeued_def slowest_def m_def)
  have at: "aggregate_time (requeued g) = aggregate_time g + m" by (simp add: requeued_def m_def)
  have m: "0 < m" using assms(1) by (simp add: m_def)
  have X: "0 \<le> X" using assms(2) by (simp add: X_def)
  have old: "budget T_old T_async (aggregate_time g, g) = 2 + nat \<lfloor>X / m\<rfloor>"
    using assms(2) by (simp add: budget_def X_def m_def)
  show ?thesis
  proof (cases "aggregate_time g + m - T_old \<le> T_async")
    case False
    then have "budget T_old T_async (aggregate_time (requeued g), requeued g) = 1"
      by (simp add: budget_def at)
    with old show ?thesis by simp
  next
    case True
    then have mX: "m \<le> X" by (simp add: X_def)
    have xm: "T_async - (aggregate_time g + m - T_old) = X - m" by (simp add: X_def)
    have "budget T_old T_async (aggregate_time (requeued g), requeued g)
        = 2 + nat \<lfloor>(T_async - (aggregate_time g + m - T_old)) / m\<rfloor>"
      using True by (simp add: budget_def at sl)
    then have new: "budget T_old T_async (aggregate_time (requeued g), requeued g)
        = 2 + nat \<lfloor>(X - m) / m\<rfloor>"
      by (simp only: xm)
    have "(X - m) / m = X / m - 1" using m by (simp add: field_simps)
    then have f: "\<lfloor>(X - m) / m\<rfloor> = \<lfloor>X / m\<rfloor> - 1" by simp
    have "1 \<le> X / m" using m mX by simp
    then have "1 \<le> \<lfloor>X / m\<rfloor>" by simp
    with f have "nat \<lfloor>(X - m) / m\<rfloor> < nat \<lfloor>X / m\<rfloor>" by simp
    with old new show ?thesis by simp
  qed
qed

lemma pass_budget:
  assumes "loop_inv st" and "\<forall>e\<in>set (queue st). delays_pos e"
    and "async_pass cfg env T_old T_async st = Inr st'"
  shows "passes_left T_old T_async (queue st') < passes_left T_old T_async (queue st)"
    and "\<forall>e\<in>set (queue st'). delays_pos e"
proof -
  from async_pass_Inr [OF assms(3)] obtain k g q where
    pop: "heappop (queue st) = Inr ((k, g), q)" and
    nq: "if aggregate_time g - T_old \<le> T_async
         then clients g \<noteq> [] \<and> heappush q (aggregate_time (requeued g), requeued g) = Inr (queue st')
         else queue st' = q"
    by blast
  from assms(1) have h: "is_heap (queue st)" and t: "\<forall>e\<in>set (queue st). timed e"
    unfolding loop_inv_def by blast+
  from heappop_heap [OF h pop] have hq: "is_heap q"
    and m: "mset (queue st) = add_mset (k, g) (mset q)" by simp_all
  from mset_add_set [OF m] have kin: "(k, g) \<in> set (queue st)"
    and sub: "set q \<subseteq> set (queue st)" by auto
  from t kin have "timed (k, g)" by blast
  then have k: "k = aggregate_time g" and ne: "clients g \<noteq> []" by (simp_all add: timed_def)
  from assms(2) kin have dg: "\<forall>c\<in>set (clients g). 0 < delay c" by (auto simp: delays_pos_def)
  have old: "passes_left T_old T_async (queue st)
      = budget T_old T_async (aggregate_time g, g) + passes_left T_old T_async q"
    using passes_left_add [OF m] by (simp add: k)
  show "passes_left T_old T_async (queue st') < passes_left T_old T_async (queue st)"
  proof (cases "aggregate_time g - T_old \<le> T_async")
    case False
    with nq old budget_pos [of T_old T_async "(aggregate_time g, g)"] show ?thesis by simp
  next
    case True
    with nq have "heappush q (aggregate_time (requeued g), requeued g) = Inr (queue st')" by simp
    from heappush_heap [OF hq this]
    have "mset (queue st') = add_mset (aggregate_time (requeued g), requeued g) (mset q)" by simp
    from passes_left_add [OF this] old budget_requeued [OF slowest_pos [OF ne dg] True]
    show ?thesis by simp
  qed
  show "\<forall>e\<in>set (queue st'). delays_pos e"
  proof (cases "aggregate_time g - T_old \<le> T_async")
    case False
    with nq assms(2) sub show ?thesis by auto
  next
    case True
    with nq have "heappush q (aggregate_time (requeued g), requeued g) = Inr (queue st')" by simp
    from heappush_heap [OF hq this]
    have "set (queue st') = insert (aggregate_time (requeued g), requeued g) (set q)"
      by (simp add: mset_add_set)
    moreover have "delays_pos (aggregate_time (requeued g), requeued g)"
      using dg by (simp add: delays_pos_def requeued_def)
    ultimately show ?thesis using assms(2) sub by auto
  qed
qed

lemma iter_ends:
  "loop_inv st \<Longrightarrow> \<forall>e\<in>set (queue st). delays_pos e \<Longrightarrow>
   passes_left T_old T_async (queue st) \<le> n \<Longrightarrow>
   (\<exists>e. async_iter n cfg env T_old T_async st = Inl e) \<or>
   (\<exists>st'. async_iter n cfg env T_old T_async st = Inr st' \<and> queue st' = [])"
proof (induction n arbitrary: st)
  case 0
  then have "queue st = []" using passes_left_zero by simp
  then show ?case by simp
next
  case (Suc n)
  show ?case
  proof (cases "queue st = []")
    case True
    then show ?thesis by simp
  next
    case False
    show ?thesis
    proof (cases "async_pass cfg env T_old T_async st")
      case (Inl e)
      with False show ?thesis by simp
    next
      case (Inr st1)
      from pass_budget [OF Suc.prems(1,2) Inr] Suc.prems(3)
      have "passes_left T_old T_async (queue st1) \<le> n" and "\<forall>e\<in>set (queue st1). delays_pos e"
        by simp_all
      from Suc.IH [OF pass_inv [OF Suc.prems(1) Inr] this(2) this(1)] False Inr
      show ?thesis by simp
    qed
  qed
qed

lemma set_delays_pos:
  "\<forall>m c. 0 < draw m c \<Longrightarrow> \<forall>c\<in>set (set_delays draw n cs). 0 < delay c"
  by (induction cs arbitrary: n) auto

lemma prepare_groups_pos:
  "prepare_groups draw T_old n gs = Inr gs' \<Longrightarrow> \<forall>m c. 0 < draw m c \<Longrightarrow>
   \<forall>g\<in>set gs'. delays_pos (aggregate_time g, g)"
proof (induction gs arbitrary: n gs')
  case Nil
  then show ?case by simp
next
  case (Cons g gs)
  let ?g1 = "set_download_time (g\<lparr>clients := set_delays draw n (clients g)\<rparr>) T_old"
  from Cons.prems(1) obtain g2 gs2 where
    a: "set_aggregate_time ?g1 = Inr g2" and
    r: "prepare_groups draw T_old (n + length (clients g)) gs = Inr gs2" and
    e: "gs' = g2 # gs2"
    by (auto split: sum.splits)
  from a have "clients g2 = set_delays draw n (clients g)"
    by (auto simp: set_aggregate_time_def set_download_time_def split: sum.splits)
  with set_delays_pos [OF Cons.prems(2), of n "clients g"]
  have "delays_pos (aggregate_time g2, g2)" by (simp add: delays_pos_def)
  with Cons.IH [OF r Cons.prems(2)] show ?case by (simp add: e)
qed

lemma round_ends:
  assumes "async_start env T_old server = Inr st0" and "\<forall>m c. 0 < draw_delay env m c"
  shows "async_while (passes_left T_old T_async (queue st0)) cfg env T_old T_async st0 \<noteq> None"
proof -
  from async_start_props [OF assms(1)] obtain groups where
    g: "prepare_groups (draw_delay env) T_old (n_delay server) (selection env server) = Inr groups"
    and m: "mset (queue st0) = mset (map (\<lambda>g. (aggregate_time g, g)) groups)"
    by blast
  from m have s: "set (queue st0) = (\<lambda>g. (aggregate_time g, g)) ` set groups"
    by (metis set_mset_mset set_map)
  with prepare_groups_pos [OF g assms(2)] have p: "\<forall>e\<in>set (queue st0). delays_pos e" by auto
  from iter_ends [OF async_start_inv(1) [OF assms(1)] p order_refl, of T_old T_async cfg env]
  show ?thesis by (auto simp: async_while_def)
qed

lemma pass_requeues:
  assumes "async_pass cfg env T_old T_async st = Inr st'"
  shows "\<exists>k g q. heappop (queue st) = Inr ((k, g), q) \<and>
          (if aggregate_time g - T_old \<le> T_async
           then heappush q (aggregate_time (requeued g), requeued g) = Inr (queue st')
           else queue st' = q) \<and>
          download_time (requeued g) = aggregate_time g \<and>
          clients (requeued g) = clients g \<and>
          aggregate_time (requeued g) = aggregate_time g + slowest g \<and>
          n_delay (srv st') = n_delay (srv st)"
proof -
  from async_pass_Inr [OF assms] obtain k g q where
    "heappop (queue st) = Inr ((k, g), q)"
    "n_delay (srv st') = n_delay (srv st)"
    "if aggregate_time g - T_old \<le> T_async
     then clients g \<noteq> [] \<and> heappush q (aggregate_time (requeued g), requeued g) = Inr (queue st')
     else queue st' = q"
    by blast
  moreover have "download_time (requeued g) = aggregate_time g"
    "clients (requeued g) = clients g"
    "aggregate_time (requeued g) = aggregate_time g + slowest g"
    by (simp_all add: requeued_def)
  ultimately show ?thesis by (intro exI [of _ k] exI [of _ g] exI [of _ q]) (simp split: if_splits)
qed

text \<open>
  Claim C3, as amended. A pass that returns has popped a group \<open>g\<close>; the queue it leaves
  is the rest with \<open>requeued g\<close> pushed onto it when \<^verbatim>\<open>T_cur - T_old <= T_async\<close> (\<open>T_cur\<close>
  being the aggregate time of \<open>g\<close>), and the rest alone otherwise. \<open>requeued g\<close> has the
  clients of \<open>g\<close> with the delays they had, \<open>T_cur\<close> as download time and \<open>T_cur\<close> plus the
  largest of these delays as aggregate time; the pass draws no delay. The window is
  consulted nowhere else: when the loop of a round ends without an exception, every
  client selected at the start has had its group popped and aggregated as it was
  prepared, with download time \<open>T_old\<close>, whatever its aggregate time; and when every drawn
  delay is positive the loop does end.
\<close>

theorem requeue_policy:
  "(async_pass cfg env T_old T_async st = Inr st' \<longrightarrow>
      (\<exists>k g q. heappop (queue st) = Inr ((k, g), q) \<and>
          (if aggregate_time g - T_old \<le> T_async
           then heappush q (aggregate_time (requeued g), requeued g) = Inr (queue st')
           else queue st' = q) \<and>
          download_time (requeued g) = aggregate_time g \<and>
          clients (requeued g) = clients g \<and>
          aggregate_time (requeued g) = aggregate_time g + slowest g \<and>
          n_delay (srv st') = n_delay (srv st)))
   \<and> (async_start env T_old server = Inr st0 \<longrightarrow>
        (async_while n cfg env T_old T_async st0 = Some (Inr st1) \<longrightarrow>
           (\<forall>c\<in>set (sample env (n_sample server)).
               \<exists>p\<in>set (passed st1).
                 map cid (clients (fst p)) = [cid c] \<and> download_time (fst p) = T_old))
      \<and> ((\<forall>m c. 0 < draw_delay env m c) \<longrightarrow>
           (\<exists>k r. async_while k cfg env T_old T_async st0 = Some r)))"
proof -
  have a: "\<exists>k r. async_while k cfg env T_old T_async st0 = Some r"
    if "async_start env T_old server = Inr st0" "\<forall>m c. 0 < draw_delay env m c"
    using round_ends [OF that, of T_async cfg] by blast
  show ?thesis
    using pass_requeues [of cfg env T_old T_async st st']
      round_runs_every_group(2) [of env T_old server st0 n cfg T_async st1] a
    by blast
qed

lemma late_while_eval:
  "async_while 5 cfg_async env_late 0 10 late_start = Some (Inr late_final)"
  by (simp add: async_while_def late_final_eval) (simp add: late_final_def)

theorem requeue_policy_witness:
  "async_pass cfg_async env_fresh 0 10 fresh_start = Inr fresh_next
   \<and> async_start env_late 0 server0 = Inr late_start
   \<and> async_while 5 cfg_async env_late 0 10 late_start = Some (Inr late_final)
   \<and> (\<exists>k g q. heappop (queue fresh_start) = Inr ((k, g), q) \<and>
         heappush q (aggregate_time (requeued g), requeued g) = Inr (queue fresh_next) \<and>
         aggregate_time g - 0 \<le> (10 :: real))
   \<and> map (\<lambda>p. map cid (clients (fst p))) (passed late_final) = [[1], [1], [1], [0]]
   \<and> (\<exists>p\<in>set (passed late_final). map cid (clients (fst p)) = [0] \<and> download_time (fst p) = 0
         \<and> aggregate_time (fst p) = 20)
   \<and> (\<exists>k r. async_while k cfg_async env_late 0 10 late_start = Some r)"
proof -
  have pos: "\<forall>m c. 0 < draw_delay env_late m c" by (simp add: env_late_def)
  note r1 = requeue_policy [of cfg_async env_fresh 0 10 fresh_start fresh_next,
      THEN conjunct1, THEN mp, OF fresh_next_eval]
  note r2 = requeue_policy [of cfg_async env_late 0 10 _ _ server0 late_start 5 late_final,
      THEN conjunct2, THEN mp, OF late_start_eval]
  from r1 obtain k g q where
    p: "heappop (queue fresh_start) = Inr ((k, g), q)" and
    i: "if aggregate_time g - 0 \<le> (10::real)
        then heappush q (aggregate_time (requeued g), requeued g) = Inr (queue fresh_next)
        else queue fresh_next = q"
    by blast
  from p have "g = \<lparr>clients = [\<lparr>cid = 0, delay = 6\<rparr>], download_time = 0, aggregate_time = 6\<rparr>"
    by (simp add: fresh_start_def heappop_def)
  with i have "aggregate_time g - 0 \<le> (10 :: real)"
    and "heappush q (aggregate_time (requeued g), requeued g) = Inr (queue fresh_next)"
    by simp_all
  with p have A: "\<exists>k g q. heappop (queue fresh_start) = Inr ((k, g), q) \<and>
         heappush q (aggregate_time (requeued g), requeued g) = Inr (queue fresh_next) \<and>
         aggregate_time g - 0 \<le> (10 :: real)" by blast
  from r2 pos
  have B: "\<exists>k r. async_while k cfg_async env_late 0 10 late_start = Some r" by blast
  have C: "map (\<lambda>p. map cid (clients (fst p))) (passed late_final) = [[1], [1], [1], [0]]"
    by (simp add: late_final_def)
  have D: "\<exists>p\<in>set (passed late_final). map cid (clients (fst p)) = [0] \<and>
      download_time (fst p) = 0 \<and> aggregate_time (fst p) = 20"
    by (simp add: late_final_def)
  from A B C D fresh_next_eval late_start_eval late_while_eval show ?thesis by simp
qed

text \<open>
  Where the claim as stated fails: it has the delay resampled on re-enqueue. With a
  source of delays whose next draw would be 7, the group put back after the first pass
  still carries the delay 6 of the start of the round, is due at 12, and no draw has
  been made.
\<close>

theorem requeue_keeps_delay_counterexample:
  "async_start env_fresh 0 server0 = Inr fresh_start
   \<and> async_pass cfg_async env_fresh 0 10 fresh_start = Inr fresh_next
   \<and> queue fresh_next
       = [(12, \<lparr>clients = [\<lparr>cid = 0, delay = 6\<rparr>], download_time = 6, aggregate_time = 12\<rparr>)]
   \<and> n_delay (srv fresh_next) = n_delay (srv fresh_start)
   \<and> draw_delay env_fresh (n_delay (srv fresh_start)) \<lparr>cid = 0, delay = 6\<rparr> = 7"
  using fresh_start_eval fresh_next_eval
  by (simp add: fresh_next_def fresh_start_def env_fresh_def)

end
